theory Spec2Isabelle
  imports Complex_Main "HOL-Library.Sublist" "HOL-Library.Multiset"
begin

section \<open>JavaScript strings\<close>

text \<open>
  A JavaScript string is modelled as a \<^typ>\<open>string\<close>: a list of code units, here the
  code units below 256.  \<open>is_ws\<close> is the class that \<open>String.prototype.trim\<close> strips and
  that \<open>\s\<close> matches (WhiteSpace and LineTerminator of ECMAScript) on that range: TAB, LF,
  VT, FF, CR, SPACE and NBSP.  \<open>is_lt\<close> is the LineTerminator class that \<open>.\<close> does not match.
\<close>

definition is_ws :: "char \<Rightarrow> bool" where
  "is_ws c = (c \<in> set [CHR 0x09, CHR 0x0A, CHR 0x0B, CHR 0x0C, CHR 0x0D, CHR 0x20, CHR 0xA0])"

definition is_lt :: "char \<Rightarrow> bool" where
  "is_lt c = (c \<in> set [CHR 0x0A, CHR 0x0D])"

definition trim :: "string \<Rightarrow> string" where
  "trim s = rev (dropWhile is_ws (rev (dropWhile is_ws s)))"

text \<open>\<open>s.split('\n')\<close>: the pieces between line feeds; never an empty array.\<close>

fun split_nl :: "string \<Rightarrow> string list" where
  "split_nl [] = [[]]"
| "split_nl (c # cs) =
     (if c = CHR 0x0A then [] # split_nl cs
      else (case split_nl cs of l # ls \<Rightarrow> (c # l) # ls | [] \<Rightarrow> [[c]]))"

text \<open>\<open>lines.join('\n')\<close>.\<close>

fun join_nl :: "string list \<Rightarrow> string" where
  "join_nl [] = []"
| "join_nl [l] = l"
| "join_nl (l # m # ls) = l @ CHR 0x0A # join_nl (m # ls)"

text \<open>\<open>s.startsWith(p)\<close> and \<open>s.endsWith(p)\<close>.\<close>

fun startsWith :: "string \<Rightarrow> string \<Rightarrow> bool" where
  "startsWith s [] = True"
| "startsWith [] (p # ps) = False"
| "startsWith (c # cs) (p # ps) = (c = p \<and> startsWith cs ps)"

definition endsWith :: "string \<Rightarrow> string \<Rightarrow> bool" where
  "endsWith s p = startsWith (rev s) (rev p)"

text \<open>
  Reading \<open>lines[0]\<close> of an empty array gives \<open>undefined\<close>, and calling a method on it
  throws a TypeError; \<open>insertBefore\<close> with a reference node that is not a child throws a
  NotFoundError.
\<close>

datatype js_error = TypeError | NotFoundError

section \<open>Frontmatter stripper\<close>

text \<open>
  \<open>skipFrontmatter\<close> as given in FRONTMATTER_SUPPORT.md.  \<open>find_close\<close> is its loop over
  \<open>lines[1..]\<close>: at the first line whose trimmed text is the fence it yields
  \<open>lines.slice(i + 1)\<close>.
\<close>

fun find_close :: "string list \<Rightarrow> string list option" where
  "find_close [] = None"
| "find_close (l # ls) = (if trim l = ''---'' then Some ls else find_close ls)"

definition skipFrontmatter :: "string \<Rightarrow> js_error + string" where
  "skipFrontmatter source =
     (case split_nl (trim source) of
        [] \<Rightarrow> Inl TypeError
      | l0 # rest \<Rightarrow>
          if trim l0 = ''---''
          then (case find_close rest of Some after \<Rightarrow> Inr (join_nl after) | None \<Rightarrow> Inr source)
          else Inr source)"

section \<open>Diagram type classifier\<close>

text \<open>\<open>detectDiagramType\<close>: the if-chain over the first line of the trimmed source.\<close>

definition classify_line :: "string \<Rightarrow> string" where
  "classify_line firstLine =
     (if startsWith firstLine ''flowchart'' \<or> startsWith firstLine ''graph'' then ''flowchart''
      else if startsWith firstLine ''pie'' then ''pie''
      else if startsWith firstLine ''classDiagram'' then ''classDiagram''
      else if startsWith firstLine ''sequenceDiagram'' then ''sequenceDiagram''
      else if startsWith firstLine ''gantt'' then ''gantt''
      else if startsWith firstLine ''journey'' then ''journey''
      else if startsWith firstLine ''mindmap'' then ''mindmap''
      else if startsWith firstLine ''timeline'' then ''timeline''
      else if startsWith firstLine ''xychart'' then ''xychart''
      else if startsWith firstLine ''stateDiagram'' then ''stateDiagram''
      else ''unknown'')"

definition detectDiagramType :: "string \<Rightarrow> js_error + string" where
  "detectDiagramType source =
     (case split_nl (trim source) of
        [] \<Rightarrow> Inl TypeError
      | l0 # rest \<Rightarrow> Inr (classify_line (trim l0)))"

text \<open>
  A source has a frontmatter block when the first line of the trimmed source, trimmed, is
  the fence and some later line, trimmed, is the fence too.
\<close>

definition has_frontmatter :: "string \<Rightarrow> bool" where
  "has_frontmatter s =
     (case split_nl (trim s) of
        [] \<Rightarrow> False
      | l0 # rest \<Rightarrow> trim l0 = ''---'' \<and> list_ex (\<lambda>l. trim l = ''---'') rest)"


section \<open>Regular expressions\<close>

text \<open>
  The regular expressions of the program, with the backtracking semantics of ECMAScript:
  a matcher maps a state (position in the input, rest of the input, captures so far) to
  the list of states it can reach, in the order in which backtracking tries them.  The
  first state of the list is the match that JavaScript returns.  Quantifiers are greedy,
  so a starred class offers its longest run first; \<open>Bol\<close> is \<open>^\<close> without the multiline
  flag.  Only the forms the program uses are modelled: stars range over one character
  class, and no group can match the empty string under a quantifier.
\<close>

datatype rx =
    Lit char
  | Cls "char \<Rightarrow> bool"
  | Star "char \<Rightarrow> bool"
  | Opt rx
  | Seq rx rx
  | Alt rx rx
  | Grp nat rx
  | Bol
  | Eps

type_synonym rx_state = "nat \<times> string \<times> (nat \<times> string) list"

fun star_run :: "(char \<Rightarrow> bool) \<Rightarrow> nat \<Rightarrow> string \<Rightarrow> (nat \<times> string) list \<Rightarrow> rx_state list" where
  "star_run f p [] cs = [(p, [], cs)]"
| "star_run f p (x # xs) cs =
     (if f x then star_run f (Suc p) xs cs @ [(p, x # xs, cs)] else [(p, x # xs, cs)])"

fun rx_run :: "rx \<Rightarrow> rx_state \<Rightarrow> rx_state list" where
  "rx_run (Lit c) (p, s, cs) =
     (case s of [] \<Rightarrow> [] | x # xs \<Rightarrow> if x = c then [(Suc p, xs, cs)] else [])"
| "rx_run (Cls f) (p, s, cs) =
     (case s of [] \<Rightarrow> [] | x # xs \<Rightarrow> if f x then [(Suc p, xs, cs)] else [])"
| "rx_run (Star f) (p, s, cs) = star_run f p s cs"
| "rx_run (Opt r) st = rx_run r st @ [st]"
| "rx_run (Seq a b) st = concat (map (rx_run b) (rx_run a st))"
| "rx_run (Alt a b) st = rx_run a st @ rx_run b st"
| "rx_run (Grp i r) (p, s, cs) =
     map (\<lambda>(p', s', cs'). (p', s', (i, take (p' - p) s) # cs')) (rx_run r (p, s, cs))"
| "rx_run Bol (p, s, cs) = (if p = 0 then [(p, s, cs)] else [])"
| "rx_run Eps st = [st]"

text \<open>\<open>r+\<close> over a class, a literal string, and a sequence of parts.\<close>

definition Plus :: "(char \<Rightarrow> bool) \<Rightarrow> rx" where
  "Plus f = Seq (Cls f) (Star f)"

fun rx_str :: "string \<Rightarrow> rx" where
  "rx_str [] = Eps"
| "rx_str (c # cs) = Seq (Lit c) (rx_str cs)"

fun rx_seq :: "rx list \<Rightarrow> rx" where
  "rx_seq [] = Eps"
| "rx_seq (r # rs) = Seq r (rx_seq rs)"

text \<open>
  \<open>s.match(r)\<close> for a regular expression without the global flag: the first start index,
  from the left, at which the expression matches, with the captures of that match.
  \<open>rx_search r p s\<close> scans the rest \<open>s\<close> of the input from index \<open>p\<close>.
\<close>

fun rx_search :: "rx \<Rightarrow> nat \<Rightarrow> string \<Rightarrow> rx_state option" where
  "rx_search r p [] = (case rx_run r (p, [], []) of [] \<Rightarrow> None | st # _ \<Rightarrow> Some st)"
| "rx_search r p (x # xs) =
     (case rx_run r (p, x # xs, []) of [] \<Rightarrow> rx_search r (Suc p) xs | st # _ \<Rightarrow> Some st)"

definition rx_match :: "rx \<Rightarrow> string \<Rightarrow> rx_state option" where
  "rx_match r s = rx_search r 0 s"

text \<open>
  \<open>m[i]\<close> of a match: the text of capture group \<open>i\<close>, \<open>None\<close> for \<open>undefined\<close> (the group
  took no part in the match).  \<open>group_text\<close> reads a group that always takes part.
\<close>

definition rx_group :: "rx_state \<Rightarrow> nat \<Rightarrow> string option" where
  "rx_group m i = map_of (snd (snd m)) i"

definition group_text :: "rx_state \<Rightarrow> nat \<Rightarrow> string" where
  "group_text m i = (case rx_group m i of None \<Rightarrow> [] | Some t \<Rightarrow> t)"

text \<open>The character classes of the program's expressions.\<close>

definition not_lt :: "char \<Rightarrow> bool" where
  "not_lt c = (\<not> is_lt c)"

definition is_digit :: "char \<Rightarrow> bool" where
  "is_digit c = (c \<in> set ''0123456789'')"

definition is_upper_digit :: "char \<Rightarrow> bool" where
  "is_upper_digit c = (c \<in> set ''ABCDEFGHIJKLMNOPQRSTUVWXYZ0123456789'')"

section \<open>Metadata extractor\<close>

text \<open>
  \<open>parseMermaidMetadata\<close>.  Both expressions have the shape
  \<open>/%%\s*KEYWORD\s*(.+)/\<close>; \<open>marker_rx\<close> is that shape.
\<close>

record metadata =
  title :: "string option"
  description :: "string option"

definition marker_rx :: "string \<Rightarrow> rx" where
  "marker_rx kw =
     rx_seq [Lit CHR ''%'', Lit CHR ''%'', Star is_ws, rx_str kw, Star is_ws, Grp 1 (Plus not_lt)]"

definition extract_field :: "string \<Rightarrow> string \<Rightarrow> string option" where
  "extract_field kw source =
     (case rx_match (marker_rx kw) source of
        None \<Rightarrow> None
      | Some m \<Rightarrow> Some (trim (group_text m 1)))"

definition parseMermaidMetadata :: "string \<Rightarrow> metadata" where
  "parseMermaidMetadata mermaidSource =
     \<lparr> title = extract_field ''accTitle'' mermaidSource,
       description = extract_field ''accDescr'' mermaidSource \<rparr>"

section \<open>Annotation auto-insertion\<close>

text \<open>
  \<open>ensureMetadata\<close>.  \<open>falsy\<close> is JavaScript's \<open>!x\<close> for a value that is a string or
  \<open>null\<close>: true for \<open>null\<close> and for the empty string.
\<close>

definition falsy :: "string option \<Rightarrow> bool" where
  "falsy v = (case v of None \<Rightarrow> True | Some t \<Rightarrow> t = [])"

definition title_line :: string where
  "title_line = ''%%accTitle Untitled Diagram''"

definition descr_line :: string where
  "descr_line = ''%%accDescr Auto-generated description for accessibility. Please customize.''"

definition missing_lines :: "metadata \<Rightarrow> string list" where
  "missing_lines current =
     (if falsy (title current) then [title_line] else []) @
     (if falsy (description current) then [descr_line] else [])"

definition ensureMetadata :: "string \<Rightarrow> string \<times> metadata \<times> bool" where
  "ensureMetadata source =
     (let current = parseMermaidMetadata source;
          lines = missing_lines current;
          added = (falsy (title current) \<or> falsy (description current));
          updated = (if added
                     then source @ (if endsWith source ''\<newline>'' then [] else ''\<newline>'')
                            @ join_nl lines @ ''\<newline>''
                     else source);
          finalMeta = parseMermaidMetadata updated
      in (updated, finalMeta, added))"

text \<open>
  Two auxiliaries for reasoning about \<open>marker_rx\<close>.  \<open>marker_tail\<close> is the part of the
  expression after the keyword, \<open>\s*(.+)\<close>.  \<open>after_marker kw s\<close> tells whether \<open>s\<close> starts
  with \<open>%%\<close>, white space and the keyword, and returns the text after the keyword.
\<close>

definition marker_tail :: rx where
  "marker_tail = rx_seq [Star is_ws, Grp 1 (Plus not_lt)]"

fun after_marker :: "string \<Rightarrow> string \<Rightarrow> string option" where
  "after_marker kw (c1 # c2 # r) =
     (if c1 = CHR ''%'' \<and> c2 = CHR ''%'' \<and> startsWith (dropWhile is_ws r) kw
      then Some (drop (length kw) (dropWhile is_ws r)) else None)"
| "after_marker kw s = None"


section \<open>Narrative helpers\<close>

text \<open>
  \<open>escapeHtml\<close> assigns the text to \<open>textContent\<close> of a fresh element and reads
  \<open>innerHTML\<close> back: the HTML serialisation of a text node, which replaces \<open>&\<close>, \<open><\<close>, \<open>>\<close>
  and the no-break space.  Assigning \<open>undefined\<close> gives the empty text.
\<close>

fun escapeHtml :: "string \<Rightarrow> string" where
  "escapeHtml [] = []"
| "escapeHtml (c # cs) =
     (if c = CHR ''&'' then ''&amp;''
      else if c = CHR ''<'' then ''&lt;''
      else if c = CHR ''>'' then ''&gt;''
      else if c = CHR 0xA0 then ''&nbsp;''
      else [c]) @ escapeHtml cs"

definition escapeHtml_opt :: "string option \<Rightarrow> string" where
  "escapeHtml_opt v = (case v of None \<Rightarrow> [] | Some t \<Rightarrow> escapeHtml t)"

text \<open>A non-negative integer in a template literal: its decimal digits.\<close>

fun show_nat :: "nat \<Rightarrow> string" where
  "show_nat n =
     (if n < 10 then [char_of (48 + n)] else show_nat (n div 10) @ [char_of (48 + n mod 10)])"

declare show_nat.simps [simp del]

text \<open>
  The arrow U+2192 of the narrative lies outside the code units below 256; it is written
  here as its three UTF-8 bytes.
\<close>

definition arrow :: string where
  "arrow = [CHR 0xE2, CHR 0x86, CHR 0x92]"

text \<open>\<open>a || b\<close> on values that are a string or \<open>undefined\<close>.\<close>

definition js_or :: "string option \<Rightarrow> string option \<Rightarrow> string option" where
  "js_or a b = (if falsy a then b else a)"

text \<open>
  The lines a narrative generator works on: the source split at line feeds, without the
  lines whose trimmed text starts with \<open>%%\<close>, without the blank lines, and without the
  first of what remains.
\<close>

definition content_lines :: "string \<Rightarrow> string list" where
  "content_lines source =
     drop 1 (filter (\<lambda>line. length (trim line) > 0)
              (filter (\<lambda>line. \<not> startsWith (trim line) ''%%'') (split_nl source)))"

section \<open>Flowchart parser and narrative\<close>

text \<open>
  \<open>generateFlowchartNarrative\<close>.  The three expressions are
  \<open>/^([A-Z0-9]+)\[([^\]]+)\]|^([A-Z0-9]+)\{([^}]+)\}/\<close>,
  \<open>/([A-Z0-9]+)\s*-->\s*\|([^|]+)\|\s*([A-Z0-9]+)/\<close> and
  \<open>/([A-Z0-9]+)\s*-->\s*([A-Z0-9]+)/\<close>.
\<close>

definition node_rx :: rx where
  "node_rx =
     Alt (rx_seq [Bol, Grp 1 (Plus is_upper_digit), Lit CHR ''['',
                  Grp 2 (Plus (\<lambda>c. c \<noteq> CHR '']'')), Lit CHR '']''])
         (rx_seq [Bol, Grp 3 (Plus is_upper_digit), Lit CHR ''{'',
                  Grp 4 (Plus (\<lambda>c. c \<noteq> CHR ''}'')), Lit CHR ''}''])"

definition edge_label_rx :: rx where
  "edge_label_rx =
     rx_seq [Grp 1 (Plus is_upper_digit), Star is_ws, rx_str ''-->'', Star is_ws,
             Lit CHR ''|'', Grp 2 (Plus (\<lambda>c. c \<noteq> CHR ''|'')), Lit CHR ''|'', Star is_ws,
             Grp 3 (Plus is_upper_digit)]"

definition edge_rx :: rx where
  "edge_rx =
     rx_seq [Grp 1 (Plus is_upper_digit), Star is_ws, rx_str ''-->'', Star is_ws,
             Grp 2 (Plus is_upper_digit)]"

text \<open>
  A node of the \<open>Map\<close>: the key is the id, the value holds the text and the question
  flag.  The \<open>Map\<close> keeps its keys in insertion order; \<open>map_set\<close> overwrites the value of
  a key in place or appends a new entry.  Ids and texts come from capture groups and are
  strings or \<open>undefined\<close>.
\<close>

record flow_node =
  display_text :: "string option"
  isQuestion :: bool

record flow_edge =
  from_id :: "string option"
  to_id :: "string option"
  label :: "string option"

type_synonym node_map = "(string option \<times> flow_node) list"

fun map_set :: "'k \<Rightarrow> 'v \<Rightarrow> ('k \<times> 'v) list \<Rightarrow> ('k \<times> 'v) list" where
  "map_set k v [] = [(k, v)]"
| "map_set k v ((k', v') # ps) = (if k' = k then (k, v) # ps else (k', v') # map_set k v ps)"

definition flow_line :: "node_map \<times> flow_edge list \<Rightarrow> string \<Rightarrow> node_map \<times> flow_edge list" where
  "flow_line st line0 =
     (let line = trim line0;
          nodes = fst st;
          edges = snd st;
          nodes' = (case rx_match node_rx line of
                      None \<Rightarrow> nodes
                    | Some m \<Rightarrow>
                        map_set (js_or (rx_group m 1) (rx_group m 3))
                          \<lparr> display_text = js_or (rx_group m 2) (rx_group m 4),
                            isQuestion = \<not> falsy (rx_group m 4) \<rparr> nodes);
          edges' = (case rx_match edge_label_rx line of
                      Some m \<Rightarrow>
                        edges @ [\<lparr> from_id = rx_group m 1, to_id = rx_group m 3,
                                   label = rx_group m 2 \<rparr>]
                    | None \<Rightarrow>
                        (case rx_match edge_rx line of
                           Some m \<Rightarrow>
                             edges @ [\<lparr> from_id = rx_group m 1, to_id = rx_group m 2,
                                        label = None \<rparr>]
                         | None \<Rightarrow> edges))
      in (nodes', edges'))"

definition flowchart_model :: "string \<Rightarrow> node_map \<times> flow_edge list" where
  "flowchart_model source = foldl flow_line ([], []) (content_lines source)"

definition plural :: "nat \<Rightarrow> string" where
  "plural n = (if n \<noteq> 1 then ''s'' else [])"

definition edge_item :: "node_map \<Rightarrow> flow_edge \<Rightarrow> string" where
  "edge_item nodes edge =
     (case (map_of nodes (from_id edge), map_of nodes (to_id edge)) of
        (Some fromNode, Some toNode) \<Rightarrow>
          if isQuestion fromNode then
            if \<not> falsy (label edge) then
              ''<li>If <em>'' @ escapeHtml_opt (display_text fromNode) @ ''</em> is <strong>''
                @ escapeHtml_opt (label edge) @ ''</strong>, then '' @ arrow @ '' <strong>''
                @ escapeHtml_opt (display_text toNode) @ ''</strong></li>\<newline>''
            else
              ''<li>From <em>'' @ escapeHtml_opt (display_text fromNode) @ ''</em> '' @ arrow
                @ '' <strong>'' @ escapeHtml_opt (display_text toNode) @ ''</strong></li>\<newline>''
          else
            if \<not> falsy (label edge) then
              ''<li>After <strong>'' @ escapeHtml_opt (display_text fromNode) @ ''</strong>, <em>''
                @ escapeHtml_opt (label edge) @ ''</em> '' @ arrow @ '' <strong>''
                @ escapeHtml_opt (display_text toNode) @ ''</strong></li>\<newline>''
            else
              ''<li><strong>'' @ escapeHtml_opt (display_text fromNode) @ ''</strong> '' @ arrow
                @ '' <strong>'' @ escapeHtml_opt (display_text toNode) @ ''</strong></li>\<newline>''
      | _ \<Rightarrow> [])"

definition generateFlowchartNarrative :: "string \<Rightarrow> string" where
  \<open>generateFlowchartNarrative source =
     (let nodes = fst (flowchart_model source);
          edges = snd (flowchart_model source);
          questions = length (filter (\<lambda>n. isQuestion (snd n)) nodes)
      in ''<p><strong>Flow:</strong></p>\<newline><ol>\<newline>''
         @ (case nodes of
              [] \<Rightarrow> ''<li>No flowchart steps detected.</li>\<newline>''
            | firstNode # _ \<Rightarrow>
                ''<li>Start at: <strong>'' @ escapeHtml_opt (display_text (snd firstNode))
                  @ ''</strong></li>\<newline>'' @ concat (map (edge_item nodes) edges))
         @ ''</ol>\<newline>''
         @ ''<p style="color: #666; font-size: 0.9em; margin-top: 1rem;">''
         @ ''<strong>Structure:</strong> '' @ show_nat (length nodes) @ '' node''
         @ plural (length nodes) @ '', ''
         @ show_nat (length edges) @ '' connection'' @ plural (length edges)
         @ (if questions > 0
            then '', '' @ show_nat questions @ '' decision point'' @ plural questions
            else [])
         @ ''</p>'')\<close>
section \<open>Pie parser and narrative\<close>

text \<open>
  \<open>generatePieNarrative\<close>.  The line expression is
  \<open>/["']?([^"':]+)["']?\s*:\s*(\d+(?:\.\d+)?)/\<close>.
\<close>

definition is_quote :: "char \<Rightarrow> bool" where
  "is_quote c = (c = CHR 0x22 \<or> c = CHR 0x27)"

definition pie_rx :: rx where
  "pie_rx =
     rx_seq [Opt (Cls is_quote), Grp 1 (Plus (\<lambda>c. \<not> is_quote c \<and> c \<noteq> CHR '':'')),
             Opt (Cls is_quote), Star is_ws, Lit CHR '':'', Star is_ws,
             Grp 2 (Seq (Plus is_digit) (Opt (Seq (Lit CHR ''.'') (Plus is_digit))))]"

subsection \<open>Numbers\<close>

text \<open>
  A JavaScript number is an IEEE 754 double.  A finite double is modelled by the rational
  it stands for; the two infinities and NaN are values of their own.  The two zeros are
  not told apart: the function never divides by a zero and never prints a negative
  number, which is where they would differ.

  \<open>to_double x\<close> is the Number value for the real \<open>x\<close>: the nearest double, the one with the
  even significand on a tie, and an infinity when the nearest value with unbounded
  exponent reaches \<open>2^1024\<close>.  \<open>expo x\<close> is the binary exponent of \<open>x > 0\<close>, the \<open>e\<close> with
  \<open>2^e \<le> x < 2^(e+1)\<close>; \<open>quantum x\<close> is the exponent of the unit in the last place of the
  doubles around \<open>x\<close> (53 bits of significand, and \<open>2^-1074\<close> for the subnormal numbers);
  \<open>rhe\<close> rounds to the nearest integer, to the even one on a tie.
\<close>

fun bitlen :: "nat \<Rightarrow> nat" where
  "bitlen n = (if n = 0 then 0 else Suc (bitlen (n div 2)))"

declare bitlen.simps [simp del]

definition p2 :: "int \<Rightarrow> rat" where
  "p2 e = 2 powi e"

definition expo :: "rat \<Rightarrow> int" where
  "expo x = (if 1 \<le> x then int (bitlen (nat \<lfloor>x\<rfloor>)) - 1
             else - int (bitlen (nat (\<lceil>1 / x\<rceil> - 1))))"

definition rhe :: "rat \<Rightarrow> int" where
  "rhe z = (let f = \<lfloor>z\<rfloor>; d = z - of_int f
            in if d < 1 / 2 then f else if 1 / 2 < d then f + 1
               else if even f then f else f + 1)"

definition quantum :: "rat \<Rightarrow> int" where
  "quantum x = max (expo x - 52) (- 1074)"

definition rnd_mag :: "rat \<Rightarrow> rat" where
  "rnd_mag x = (if x = 0 then 0 else of_int (rhe (x / p2 (quantum x))) * p2 (quantum x))"

datatype double = Fin rat | PInf | NInf | NaN

definition to_double :: "rat \<Rightarrow> double" where
  "to_double x = (let y = rnd_mag \<bar>x\<bar>
            in if 1024 \<le> expo y then (if x < 0 then NInf else PInf)
               else Fin (if x < 0 then - y else y))"

text \<open>
  The operations \<open>+\<close>, \<open>-\<close>, \<open>*\<close>, \<open>/\<close> and \<open>> 0\<close> on doubles: the exact result, rounded; the
  infinities and NaN as IEEE 754 has them.
\<close>

fun dneg :: "double \<Rightarrow> double" where
  "dneg (Fin a) = Fin (- a)"
| "dneg PInf = NInf"
| "dneg NInf = PInf"
| "dneg NaN = NaN"

fun dadd :: "double \<Rightarrow> double \<Rightarrow> double" where
  "dadd (Fin a) (Fin b) = to_double (a + b)"
| "dadd (Fin a) d = d"
| "dadd d (Fin b) = d"
| "dadd PInf PInf = PInf"
| "dadd NInf NInf = NInf"
| "dadd d e = NaN"

definition dsub :: "double \<Rightarrow> double \<Rightarrow> double" where
  "dsub a b = dadd a (dneg b)"

fun dmul :: "double \<Rightarrow> double \<Rightarrow> double" where
  "dmul (Fin a) (Fin b) = to_double (a * b)"
| "dmul NaN d = NaN"
| "dmul d NaN = NaN"
| "dmul (Fin a) d = (if a = 0 then NaN else if 0 < a then d else dneg d)"
| "dmul d (Fin b) = (if b = 0 then NaN else if 0 < b then d else dneg d)"
| "dmul d e = (if d = e then PInf else NInf)"

fun ddiv :: "double \<Rightarrow> double \<Rightarrow> double" where
  "ddiv (Fin a) (Fin b) =
     (if b = 0 then (if a = 0 then NaN else if 0 < a then PInf else NInf) else to_double (a / b))"
| "ddiv NaN d = NaN"
| "ddiv d NaN = NaN"
| "ddiv (Fin a) d = Fin 0"
| "ddiv d (Fin b) = (if 0 \<le> b then d else dneg d)"
| "ddiv d e = NaN"

fun is_pos :: "double \<Rightarrow> bool" where
  "is_pos (Fin a) = (0 < a)"
| "is_pos PInf = True"
| "is_pos d = False"

text \<open>
  \<open>parseFloat\<close> of the text that group 2 captures (digits, optionally a point and more
  digits): the Number value for its decimal value.
\<close>

definition digits_value :: "string \<Rightarrow> nat" where
  "digits_value ds = foldl (\<lambda>n c. 10 * n + (of_char c - 48)) 0 ds"

definition parseFloat :: "string \<Rightarrow> double" where
  "parseFloat t =
     (let ip = takeWhile is_digit t;
          fp = takeWhile is_digit (drop 1 (dropWhile is_digit t))
      in to_double (of_nat (digits_value ip) + of_nat (digits_value fp) / 10 ^ length fp))"

text \<open>
  \<open>x.toFixed(1)\<close>.  A value that is not finite is printed by its name.  For a finite \<open>x\<close>
  the sign is split off; from \<open>10^21\<close> on the number is printed as \<open>String(x)\<close>, which is
  the parameter \<open>show_num\<close>; below, the integer \<open>n\<close> with \<open>n / 10\<close> closest to \<open>x\<close> is taken,
  the larger one on a tie, and printed with one digit after the point.  \<open>round_tenths\<close> is
  that \<open>n\<close>, worked out on the exact value of the double.
\<close>

definition round_tenths :: "rat \<Rightarrow> int" where
  "round_tenths x = \<lfloor>x * 10 + 1 / 2\<rfloor>"

definition tenths_text :: "nat \<Rightarrow> string" where
  "tenths_text n = show_nat (n div 10) @ ''.'' @ show_nat (n mod 10)"

definition toFixed1 :: "(double \<Rightarrow> string) \<Rightarrow> double \<Rightarrow> string" where
  "toFixed1 show_num d =
     (case d of
        Fin x \<Rightarrow>
          (if x < 0 then ''-'' else [])
            @ (if 10 ^ 21 \<le> \<bar>x\<bar> then show_num (Fin \<bar>x\<bar>)
               else tenths_text (nat (round_tenths \<bar>x\<bar>)))
      | PInf \<Rightarrow> ''Infinity''
      | NInf \<Rightarrow> ''-Infinity''
      | NaN \<Rightarrow> ''NaN'')"

subsection \<open>The parser\<close>

record pie_item =
  seg_label :: string
  seg_value :: double

definition pie_line :: "pie_item list \<times> double \<Rightarrow> string \<Rightarrow> pie_item list \<times> double" where
  "pie_line st line =
     (case rx_match pie_rx (trim line) of
        None \<Rightarrow> st
      | Some m \<Rightarrow>
          (let label = trim (group_text m 1);
               v = parseFloat (group_text m 2)
           in (fst st @ [\<lparr> seg_label = label, seg_value = v \<rparr>], dadd (snd st) v)))"

definition pie_model :: "string \<Rightarrow> pie_item list \<times> double" where
  "pie_model source = foldl pie_line ([], Fin 0) (content_lines source)"

text \<open>
  \<open>data.sort((a, b) => b.value - a.value)\<close>: a stable sort; the comparator puts \<open>b\<close> in
  front of \<open>a\<close> when \<open>b.value - a.value\<close> is positive, and a NaN result counts as zero.
  \<open>insert_desc x ys\<close> puts \<open>x\<close>, which came before \<open>ys\<close>, behind every leading item that the
  comparator puts in front of it.
\<close>

fun insert_desc :: "pie_item \<Rightarrow> pie_item list \<Rightarrow> pie_item list" where
  "insert_desc x [] = [x]"
| "insert_desc x (y # ys) =
     (if is_pos (dsub (seg_value y) (seg_value x)) then y # insert_desc x ys else x # y # ys)"

definition sort_desc :: "pie_item list \<Rightarrow> pie_item list" where
  "sort_desc xs = foldr insert_desc xs []"

subsection \<open>The narrative\<close>

text \<open>
  \<open>total > 0 ? ((item.value / total) * 100).toFixed(1) : 0\<close>, as it appears in the
  template literal.  \<open>show_num\<close> stands for the conversion of a number to a string in a
  template literal (\<open>Number::toString\<close>), which is taken as a parameter.
\<close>

definition percentage :: "(double \<Rightarrow> string) \<Rightarrow> double \<Rightarrow> double \<Rightarrow> string" where
  "percentage show_num tot v =
     (if is_pos tot then toFixed1 show_num (dmul (ddiv v tot) (Fin 100)) else ''0'')"

definition pie_row :: "(double \<Rightarrow> string) \<Rightarrow> double \<Rightarrow> pie_item \<Rightarrow> string" where
  "pie_row show_num tot item =
     ''<li><strong>'' @ escapeHtml (seg_label item) @ ''</strong>: '' @ show_num (seg_value item)
       @ '' ('' @ percentage show_num tot (seg_value item) @ ''%)</li>\<newline>''"

definition generatePieNarrative :: "(double \<Rightarrow> string) \<Rightarrow> string \<Rightarrow> string" where
  \<open>generatePieNarrative show_num source =
     (let data = fst (pie_model source);
          tot = snd (pie_model source)
      in ''<p><strong>Data breakdown:</strong></p>\<newline><ul>\<newline>''
         @ concat (map (pie_row show_num tot) (sort_desc data))
         @ ''</ul>\<newline>''
         @ ''<p style="color: #666; font-size: 0.9em;"><strong>Total:</strong> ''
         @ show_num tot @ ''</p>'')\<close>

subsection \<open>Notions for the statements\<close>

text \<open>
  \<open>percentage_tenths\<close> is the number that the percentage text denotes, in tenths of a
  percent.  \<open>is_value\<close> holds of the doubles that \<open>parseFloat\<close> can return here: the
  doubles from zero up and the positive infinity; \<open>dle\<close> is their order.  \<open>show_whole\<close>
  prints a whole number by its digits, as \<open>Number::toString\<close> does for the whole numbers
  below \<open>10^21\<close> in size; it takes the place of \<open>show_num\<close> in the examples.
\<close>

definition percentage_tenths :: "double \<Rightarrow> double \<Rightarrow> nat" where
  "percentage_tenths tot v =
     (case dmul (ddiv v tot) (Fin 100) of Fin p \<Rightarrow> nat (round_tenths p) | _ \<Rightarrow> 0)"

definition representable :: "rat \<Rightarrow> bool" where
  "representable y = (0 \<le> y \<and> rnd_mag y = y)"

fun is_value :: "double \<Rightarrow> bool" where
  "is_value (Fin a) = representable a"
| "is_value PInf = True"
| "is_value d = False"

fun dle :: "double \<Rightarrow> double \<Rightarrow> bool" where
  "dle (Fin a) (Fin b) = (a \<le> b)"
| "dle (Fin a) PInf = True"
| "dle PInf PInf = True"
| "dle d e = False"

definition on_grid :: "rat \<Rightarrow> bool" where
  "on_grid x = (\<exists>k::int. 0 \<le> k \<and> x = of_int k * p2 (- 1074))"

text \<open>
  \<open>all_values\<close>: every segment of a list holds such a value.  \<open>fin_value\<close> is the rational
  that a finite double stands for.
\<close>

definition all_values :: "pie_item list \<Rightarrow> bool" where
  "all_values xs = (\<forall>r\<in>set xs. is_value (seg_value r))"

fun fin_value :: "double \<Rightarrow> rat" where
  "fin_value (Fin a) = a"
| "fin_value d = 0"

definition show_whole :: "double \<Rightarrow> string" where
  "show_whole d =
     (case d of
        Fin x \<Rightarrow> (if x < 0 then ''-'' else []) @ show_nat (nat \<lfloor>\<bar>x\<bar>\<rfloor>)
      | PInf \<Rightarrow> ''Infinity''
      | NInf \<Rightarrow> ''-Infinity''
      | NaN \<Rightarrow> ''NaN'')"


section \<open>The vector document\<close>

text \<open>
  The parsed markup is a tree of elements and text nodes.  An element has a tag (its local
  name), its attributes in document order, and its children.  \<open>setAttribute\<close> overwrites
  the value of an attribute in place or appends the attribute.
\<close>

type_synonym attrs = "(string \<times> string) list"

datatype dom = Elem string attrs "dom list" | Txt string

definition setAttribute :: "string \<Rightarrow> string \<Rightarrow> attrs \<Rightarrow> attrs" where
  "setAttribute name v a = map_set name v a"

definition getAttribute :: "attrs \<Rightarrow> string \<Rightarrow> string option" where
  "getAttribute a name = map_of a name"

fun root_attrs :: "dom \<Rightarrow> attrs" where
  "root_attrs (Elem t a ch) = a"
| "root_attrs (Txt s) = []"

fun childNodes :: "dom \<Rightarrow> dom list" where
  "childNodes (Elem t a ch) = ch"
| "childNodes (Txt s) = []"

fun textContent :: "dom \<Rightarrow> string" where
  "textContent (Txt s) = s"
| "textContent (Elem t a ch) = concat (map textContent ch)"

text \<open>
  Selectors.  A selector is a predicate on the tag and the attributes of an element.  A
  class selector looks for its name among the tokens of the \<open>class\<close> attribute, which are
  separated by ASCII white space.
\<close>

definition is_ascii_ws :: "char \<Rightarrow> bool" where
  "is_ascii_ws c = (c \<in> set [CHR 0x09, CHR 0x0A, CHR 0x0C, CHR 0x0D, CHR 0x20])"

fun split_on :: "(char \<Rightarrow> bool) \<Rightarrow> string \<Rightarrow> string list" where
  "split_on p [] = [[]]"
| "split_on p (c # cs) =
     (if p c then [] # split_on p cs
      else (case split_on p cs of l # ls \<Rightarrow> (c # l) # ls | [] \<Rightarrow> [[c]]))"

definition has_class :: "attrs \<Rightarrow> string \<Rightarrow> bool" where
  "has_class a c =
     (case map_of a ''class'' of
        None \<Rightarrow> False
      | Some v \<Rightarrow> c \<in> set (filter (\<lambda>w. w \<noteq> []) (split_on is_ascii_ws v)))"

definition sel_tag :: "string \<Rightarrow> string \<Rightarrow> attrs \<Rightarrow> bool" where
  "sel_tag name t a = (t = name)"

definition sel_node :: "string \<Rightarrow> attrs \<Rightarrow> bool" where
  "sel_node t a = (t = ''g'' \<and> has_class a ''node'')"

definition sel_edge :: "string \<Rightarrow> attrs \<Rightarrow> bool" where
  "sel_edge t a =
     (t = ''g'' \<and> (has_class a ''edgePath'' \<or> has_class a ''edgeLabel'' \<or> has_class a ''edgePaths''))"

definition sel_shape :: "string \<Rightarrow> attrs \<Rightarrow> bool" where
  "sel_shape t a = (t \<in> set [''rect'', ''circle'', ''ellipse'', ''polygon'', ''path''])"

definition sel_flowchart_id :: "string \<Rightarrow> attrs \<Rightarrow> bool" where
  "sel_flowchart_id t a =
     (case map_of a ''id'' of None \<Rightarrow> False | Some v \<Rightarrow> startsWith v ''flowchart-'')"

text \<open>
  \<open>exists_elem p n\<close>: the element \<open>n\<close> or one of its descendants matches.
  \<open>select_all p n\<close>: the matching elements among \<open>n\<close> and its descendants, in document
  order.  \<open>el.querySelector(s)\<close> and \<open>el.querySelectorAll(s)\<close> range over the descendants
  of \<open>el\<close>, that is over the forest of its children.
\<close>

fun exists_elem :: "(string \<Rightarrow> attrs \<Rightarrow> bool) \<Rightarrow> dom \<Rightarrow> bool" where
  "exists_elem p (Txt s) = False"
| "exists_elem p (Elem t a ch) = (p t a \<or> list_ex (exists_elem p) ch)"

fun select_all :: "(string \<Rightarrow> attrs \<Rightarrow> bool) \<Rightarrow> dom \<Rightarrow> dom list" where
  "select_all p (Txt s) = []"
| "select_all p (Elem t a ch) =
     (if p t a then [Elem t a ch] else []) @ concat (map (select_all p) ch)"

text \<open>
  \<open>remove_first p f\<close>: the forest \<open>f\<close> without its first matching element in document
  order (\<open>querySelector(s)\<close> followed by \<open>remove()\<close>); unchanged when nothing matches.
\<close>

fun remove_first :: "(string \<Rightarrow> attrs \<Rightarrow> bool) \<Rightarrow> dom list \<Rightarrow> dom list" where
  "remove_first p [] = []"
| "remove_first p (Txt s # r) = Txt s # remove_first p r"
| "remove_first p (Elem t a ch # r) =
     (if p t a then r
      else if list_ex (exists_elem p) ch then Elem t a (remove_first p ch) # r
      else Elem t a ch # remove_first p r)"

text \<open>\<open>update_all p f n\<close>: \<open>f\<close> applied to the attributes of every matching element.\<close>

fun update_all :: "(string \<Rightarrow> attrs \<Rightarrow> bool) \<Rightarrow> (attrs \<Rightarrow> attrs) \<Rightarrow> dom \<Rightarrow> dom" where
  "update_all p f (Txt s) = Txt s"
| "update_all p f (Elem t a ch) = Elem t (if p t a then f a else a) (map (update_all p f) ch)"

definition hide :: "attrs \<Rightarrow> attrs" where
  "hide a = setAttribute ''aria-hidden'' ''true'' a"

section \<open>Flowchart semantics\<close>

text \<open>
  \<open>applyFlowchartSemantics\<close>.  The callback of \<open>nodeGroups.forEach\<close> works on one node
  group.  \<open>node_text\<close> is its \<open>nodeText\<close>: the trimmed texts of the \<open>text\<close> descendants, each
  followed by a space, and the whole trimmed.
\<close>

definition node_text :: "dom list \<Rightarrow> string" where
  "node_text ch =
     trim (concat (map (\<lambda>textEl. trim (textContent textEl) @ '' '')
                    (concat (map (select_all (sel_tag ''text'')) ch))))"

text \<open>
  \<open>hide_later_texts seen f\<close> hides every \<open>text\<close> element of the forest except the first in
  document order; \<open>seen\<close> tells that a \<open>text\<close> element came before the forest.  This is
  the loop over \<open>textElements\<close> with \<open>i > 0\<close>, which does nothing when there is one element.
\<close>

fun hide_later_texts :: "bool \<Rightarrow> dom list \<Rightarrow> dom list" where
  "hide_later_texts seen [] = []"
| "hide_later_texts seen (Txt s # r) = Txt s # hide_later_texts seen r"
| "hide_later_texts seen (Elem t a ch # r) =
     Elem t (if t = ''text'' \<and> seen then hide a else a)
          (hide_later_texts (seen \<or> t = ''text'') ch)
       # hide_later_texts (seen \<or> exists_elem (sel_tag ''text'') (Elem t a ch)) r"

text \<open>
  The children of a node group after the callback, without the new title.  The list
  \<open>textElements\<close> is taken before the old title is removed, so its later entries are
  marked first here: marking changes attributes only, and whatever is marked inside the
  removed title leaves the document with it.  Then the first \<open>title\<close> descendant is
  removed and the shapes are hidden.
\<close>

definition node_rest :: "dom list \<Rightarrow> dom list" where
  "node_rest ch =
     map (update_all sel_shape hide)
       (remove_first (sel_tag ''title'') (hide_later_texts False ch))"

definition node_title :: "dom list \<Rightarrow> dom list" where
  "node_title ch =
     (if node_text ch \<noteq> [] then [Elem ''title'' [] [Txt (node_text ch)]] else [])"

text \<open>
  \<open>weight\<close> counts the elements of a tree; the callback never adds an element to the
  children it keeps, which is why the walk below terminates.
\<close>

fun weight :: "dom \<Rightarrow> nat" where
  "weight (Txt s) = 0"
| "weight (Elem t a ch) = Suc (sum_list (map weight ch))"

text \<open>
  \<open>walk\<close> runs the callback on every node group in document order.  \<open>querySelectorAll\<close>
  returns the groups outermost first, and the callback of a group changes nothing outside
  the group, so a group is handled in the state its ancestors left, and its own nested
  groups after it.  The new title is created after the list of groups was taken and is
  not visited.
\<close>

function walk :: "dom \<Rightarrow> dom" where
  "walk (Txt s) = Txt s"
| "walk (Elem t a ch) =
     (if sel_node t a
      then Elem t (setAttribute ''role'' ''listitem'' a) (node_title ch @ map walk (node_rest ch))
      else Elem t a (map walk ch))"
  by pat_completeness auto

lemma weight_member: "x \<in> set f \<Longrightarrow> weight x \<le> sum_list (map weight f)"
  by (induction f) auto

lemma weight_update_all: "weight (update_all p f n) = weight n"
  by (induction n) (simp_all add: comp_def cong: map_cong)

lemma weight_hide_later_texts:
  "sum_list (map weight (hide_later_texts seen f)) = sum_list (map weight f)"
  by (induction seen f rule: hide_later_texts.induct) auto

lemma weight_remove_first:
  "sum_list (map weight (remove_first p f)) \<le> sum_list (map weight f)"
  by (induction p f rule: remove_first.induct) auto

lemma weight_node_rest: "sum_list (map weight (node_rest ch)) \<le> sum_list (map weight ch)"
proof -
  have "sum_list (map weight (node_rest ch))
      = sum_list (map weight (remove_first (sel_tag ''title'') (hide_later_texts False ch)))"
    by (simp add: node_rest_def comp_def weight_update_all)
  also have "\<dots> \<le> sum_list (map weight (hide_later_texts False ch))"
    by (rule weight_remove_first)
  finally show ?thesis by (simp add: weight_hide_later_texts)
qed

termination walk
proof (relation "measure weight")
  show "wf (measure weight)" by simp
next
  fix t :: string and a :: attrs and ch :: "dom list" and x :: dom
  assume "x \<in> set (node_rest ch)"
  then have "weight x \<le> sum_list (map weight (node_rest ch))" by (rule weight_member)
  also have "\<dots> \<le> sum_list (map weight ch)" by (rule weight_node_rest)
  finally show "(x, Elem t a ch) \<in> measure weight" by simp
next
  fix t :: string and a :: attrs and ch :: "dom list" and x :: dom
  assume "x \<in> set ch"
  then have "weight x \<le> sum_list (map weight ch)" by (rule weight_member)
  then show "(x, Elem t a ch) \<in> measure weight" by simp
qed

text \<open>
  \<open>hide_markers in_defs n\<close> hides every \<open>marker\<close> element that has a \<open>defs\<close> ancestor
  (the selector \<open>defs marker\<close>); \<open>in_defs\<close> tells that such an ancestor lies above \<open>n\<close>.
\<close>

fun hide_markers :: "bool \<Rightarrow> dom \<Rightarrow> dom" where
  "hide_markers in_defs (Txt s) = Txt s"
| "hide_markers in_defs (Elem t a ch) =
     Elem t (if t = ''marker'' \<and> in_defs then hide a else a)
          (map (hide_markers (in_defs \<or> t = ''defs'')) ch)"

text \<open>
  The function itself: nothing happens without an element whose id starts with
  \<open>flowchart-\<close>, and nothing without a node group.  The wrapper group that the function
  creates is never attached to the document and is left out.
\<close>

fun applyFlowchartSemantics :: "dom \<Rightarrow> dom" where
  "applyFlowchartSemantics (Txt s) = Txt s"
| "applyFlowchartSemantics (Elem t a ch) =
     (if \<not> list_ex (exists_elem sel_flowchart_id) ch then Elem t a ch
      else if \<not> list_ex (exists_elem sel_node) ch then Elem t a ch
      else Elem t a
             (map (hide_markers (t = ''defs''))
                (map (update_all sel_edge hide)
                   (map walk ch))))"

section \<open>Accessibility transformer\<close>

text \<open>
  \<open>generateUniqueId\<close>: the prefix, the clock reading and the random suffix, joined by
  hyphens.  The clock and the random source are inputs of the model; the transformer below
  takes the two ids that the two calls return.
\<close>

definition generateUniqueId :: "string \<Rightarrow> string \<Rightarrow> string \<Rightarrow> string" where
  "generateUniqueId pfx now rnd = pfx @ ''-'' @ now @ ''-'' @ rnd"

definition truthy :: "string option \<Rightarrow> bool" where
  "truthy v = (\<not> falsy v)"

fun text_of :: "string option \<Rightarrow> string" where
  "text_of None = []"
| "text_of (Some t) = t"

text \<open>
  \<open>existingTitle\<close> and \<open>existingDesc\<close> are both looked up before either is removed.  When
  the first \<open>desc\<close> lies inside the first \<open>title\<close> it leaves the document with the title, and
  its own \<open>remove()\<close> changes nothing more.  \<open>first_inside p q f\<close> scans the forest in
  document order up to the first element matching \<open>p\<close> or \<open>q\<close> and tells whether the first
  \<open>q\<close> lies inside the first \<open>p\<close>.
\<close>

fun first_inside ::
  "(string \<Rightarrow> attrs \<Rightarrow> bool) \<Rightarrow> (string \<Rightarrow> attrs \<Rightarrow> bool) \<Rightarrow> dom list \<Rightarrow> bool option" where
  "first_inside p q [] = None"
| "first_inside p q (Txt s # r) = first_inside p q r"
| "first_inside p q (Elem t a ch # r) =
     (if p t a then Some (list_ex (exists_elem q) ch)
      else if q t a then Some False
      else (case first_inside p q ch of Some b \<Rightarrow> Some b | None \<Rightarrow> first_inside p q r))"

definition remove_existing :: "dom list \<Rightarrow> dom list" where
  "remove_existing ch =
     (let ch1 = remove_first (sel_tag ''title'') ch
      in if first_inside (sel_tag ''title'') (sel_tag ''desc'') ch = Some True then ch1
         else remove_first (sel_tag ''desc'') ch1)"

text \<open>
  The description is inserted before
  \<open>svg.querySelector('title')?.nextSibling || svg.firstChild\<close>.  \<open>nested_next f\<close> finds the
  first \<open>title\<close> of a forest and tells whether it has a next sibling.  \<open>find_slot\<close> does
  the same from the children of the root and names the place: after the child at an index
  (the title is a child of the root and has a next sibling), at the front (no title, or a
  title without next sibling), or nowhere (the title lies deeper and has a next sibling,
  which is then not a child of the root: \<open>insertBefore\<close> throws).
\<close>

datatype slot = NoTitle | AtFront | After nat | NotChild

fun nested_next :: "dom list \<Rightarrow> bool option" where
  "nested_next [] = None"
| "nested_next (Txt s # r) = nested_next r"
| "nested_next (Elem t a ch # r) =
     (if t = ''title'' then Some (r \<noteq> [])
      else (case nested_next ch of Some b \<Rightarrow> Some b | None \<Rightarrow> nested_next r))"

fun find_slot :: "nat \<Rightarrow> dom list \<Rightarrow> slot" where
  "find_slot i [] = NoTitle"
| "find_slot i (Txt s # r) = find_slot (Suc i) r"
| "find_slot i (Elem t a ch # r) =
     (if t = ''title'' then (if r = [] then AtFront else After i)
      else (case nested_next ch of
              Some True \<Rightarrow> NotChild
            | Some False \<Rightarrow> AtFront
            | None \<Rightarrow> find_slot (Suc i) r))"

definition insert_desc_node :: "dom \<Rightarrow> dom list \<Rightarrow> js_error + dom list" where
  "insert_desc_node d ch =
     (case find_slot 0 ch of
        NoTitle \<Rightarrow> Inr (d # ch)
      | AtFront \<Rightarrow> Inr (d # ch)
      | After i \<Rightarrow> Inr (take (Suc i) ch @ d # drop (Suc i) ch)
      | NotChild \<Rightarrow> Inl NotFoundError)"

text \<open>
  \<open>transform_tree\<close> is the body of \<open>applyAccessibilityTransformations\<close> between
  \<open>parseFromString\<close> and \<open>serializeToString\<close>, on the document element.
\<close>

definition labelled :: "string \<Rightarrow> string \<Rightarrow> metadata \<Rightarrow> attrs \<Rightarrow> attrs" where
  "labelled titleId descId m a =
     (if truthy (title m) \<and> truthy (description m)
      then setAttribute ''aria-labelledby'' (titleId @ '' '' @ descId) a
      else if truthy (title m) then setAttribute ''aria-labelledby'' titleId a
      else a)"

fun transform_tree :: "string \<Rightarrow> string \<Rightarrow> metadata \<Rightarrow> dom \<Rightarrow> js_error + dom" where
  "transform_tree titleId descId m (Txt s) = Inr (Txt s)"
| "transform_tree titleId descId m (Elem t a ch) =
     (let a1 = setAttribute ''role'' ''img'' a;
          ch2 = remove_existing ch;
          ch3 = (if truthy (title m)
                 then Elem ''title'' [(''id'', titleId)] [Txt (text_of (title m))] # ch2
                 else ch2);
          r4 = (if truthy (description m)
                then insert_desc_node
                       (Elem ''desc'' [(''id'', descId)] [Txt (text_of (description m))]) ch3
                else Inr ch3)
      in case r4 of
           Inl e \<Rightarrow> Inl e
         | Inr ch4 \<Rightarrow>
             (case applyFlowchartSemantics (Elem t (labelled titleId descId m a1) ch4) of
                Elem t' a' ch' \<Rightarrow>
                  Inr (Elem t' (setAttribute ''xmlns'' ''http://www.w3.org/2000/svg'' a') ch')
              | Txt s \<Rightarrow> Inr (Txt s)))"

text \<open>
  The whole function.  \<open>DOMParser.parseFromString\<close> and
  \<open>XMLSerializer.serializeToString\<close> belong to the browser and are parameters.  The
  parser does not throw on malformed markup: it returns a document that holds a
  \<open>parsererror\<close> element, which is what \<open>parseSvgSafely\<close> looks for.
\<close>

definition applyAccessibilityTransformations ::
  "(string \<Rightarrow> dom) \<Rightarrow> (dom \<Rightarrow> string) \<Rightarrow> string \<Rightarrow> string \<Rightarrow> string \<Rightarrow> metadata
     \<Rightarrow> js_error + string" where
  "applyAccessibilityTransformations parse serialize titleId descId svgString m =
     (case transform_tree titleId descId m (parse svgString) of
        Inl e \<Rightarrow> Inl e
      | Inr doc \<Rightarrow> Inr (serialize doc))"

definition parseSvgSafely :: "(string \<Rightarrow> dom) \<Rightarrow> string \<Rightarrow> bool \<times> string option" where
  "parseSvgSafely parse svgString =
     (case select_all (sel_tag ''parsererror'') (parse svgString) of
        [] \<Rightarrow> (True, None)
      | err # _ \<Rightarrow> (False, Some (textContent err)))"

section \<open>Auxiliary notions for the statements\<close>

text \<open>
  The tag of a node, the number of children of the root with a given tag, and the place
  of the new title and description among the remaining children when the title is
  given: the description goes right behind the title, or in front of it when the title
  has no next sibling.
\<close>

fun tag_of :: "dom \<Rightarrow> string option" where
  "tag_of (Elem t a ch) = Some t"
| "tag_of (Txt s) = None"

definition root_count :: "string \<Rightarrow> dom \<Rightarrow> nat" where
  "root_count name n = length (filter (\<lambda>c. tag_of c = Some name) (childNodes n))"

definition title_node :: "string \<Rightarrow> metadata \<Rightarrow> dom" where
  "title_node titleId m = Elem ''title'' [(''id'', titleId)] [Txt (text_of (title m))]"

definition desc_node :: "string \<Rightarrow> metadata \<Rightarrow> dom" where
  "desc_node descId m = Elem ''desc'' [(''id'', descId)] [Txt (text_of (description m))]"

definition placed :: "string \<Rightarrow> string \<Rightarrow> metadata \<Rightarrow> dom list \<Rightarrow> dom list" where
  "placed titleId descId m base =
     (if truthy (description m)
      then (if base = [] then [desc_node descId m, title_node titleId m]
            else title_node titleId m # desc_node descId m # base)
      else title_node titleId m # base)"

text \<open>
  A function on nodes keeps the roots when it keeps every tag and leaves alone an element
  that is neither a group nor a marker and holds one text node.  The flowchart pass maps
  the children of the root by such a function.
\<close>

definition keeps_roots :: "(dom \<Rightarrow> dom) \<Rightarrow> bool" where
  "keeps_roots G = ((\<forall>n. tag_of (G n) = tag_of n) \<and>
     (\<forall>t a s. t \<noteq> ''g'' \<and> t \<noteq> ''marker'' \<longrightarrow> G (Elem t a [Txt s]) = Elem t a [Txt s]))"

text \<open>
  Documents for the examples: a rendered flowchart with one node, and the same document
  once the transformer has run on it with the default title and description.
\<close>

definition rendered_one_node :: dom where
  "rendered_one_node =
     Elem ''svg'' [(''id'', ''m'')]
       [Elem ''g'' [(''class'', ''node default''), (''id'', ''flowchart-A-0'')]
          [Elem ''rect'' [] [], Elem ''text'' [] [Txt ''Start'']]]"

definition labelled_one_node :: dom where
  "labelled_one_node =
     Elem ''svg''
       [(''id'', ''m''), (''role'', ''img''), (''aria-labelledby'', ''title-1 desc-1''),
        (''xmlns'', ''http://www.w3.org/2000/svg'')]
       [Elem ''title'' [(''id'', ''title-1'')] [Txt ''Untitled Diagram''],
        Elem ''desc'' [(''id'', ''desc-1'')]
          [Txt ''Auto-generated description for accessibility. Please customize.''],
        Elem ''g'' [(''class'', ''node default''), (''id'', ''flowchart-A-0''),
                    (''role'', ''listitem'')]
          [Elem ''title'' [] [Txt ''Start''],
           Elem ''rect'' [(''aria-hidden'', ''true'')] [],
           Elem ''text'' [] [Txt ''Start'']]]"


text \<open>
  Notions for the flowchart pass.  \<open>all_elem p n\<close>: every element of the tree satisfies
  \<open>p\<close>.  An element is hidden when \<open>aria-hidden\<close> is \<open>true\<close>.  \<open>markers_ok\<close> is the check
  that goes with \<open>hide_markers\<close>.  \<open>non_nested\<close>: no node group lies inside a node group.
  \<open>groups_of\<close>: the node groups of a forest in document order.
\<close>

fun all_elem :: "(string \<Rightarrow> attrs \<Rightarrow> bool) \<Rightarrow> dom \<Rightarrow> bool" where
  "all_elem p (Txt s) = True"
| "all_elem p (Elem t a ch) = (p t a \<and> list_all (all_elem p) ch)"

definition is_hidden :: "attrs \<Rightarrow> bool" where
  "is_hidden a = (getAttribute a ''aria-hidden'' = Some ''true'')"

definition shape_ok :: "string \<Rightarrow> attrs \<Rightarrow> bool" where
  "shape_ok t a = (sel_shape t a \<longrightarrow> is_hidden a)"

definition edge_ok :: "string \<Rightarrow> attrs \<Rightarrow> bool" where
  "edge_ok t a = (sel_edge t a \<longrightarrow> is_hidden a)"

fun markers_ok :: "bool \<Rightarrow> dom \<Rightarrow> bool" where
  "markers_ok in_defs (Txt s) = True"
| "markers_ok in_defs (Elem t a ch) =
     ((t = ''marker'' \<and> in_defs \<longrightarrow> is_hidden a)
      \<and> list_all (markers_ok (in_defs \<or> t = ''defs'')) ch)"

definition sel_listitem :: "string \<Rightarrow> attrs \<Rightarrow> bool" where
  "sel_listitem t a = (getAttribute a ''role'' = Some ''listitem'')"

definition role_ok :: "string \<Rightarrow> attrs \<Rightarrow> bool" where
  "role_ok t a = (sel_listitem t a \<longrightarrow> sel_node t a)"

fun non_nested :: "dom \<Rightarrow> bool" where
  "non_nested (Txt s) = True"
| "non_nested (Elem t a ch) =
     (if sel_node t a then \<not> list_ex (exists_elem sel_node) ch else list_all non_nested ch)"

definition groups_of :: "dom list \<Rightarrow> dom list" where
  "groups_of f = concat (map (select_all sel_node) f)"

definition title_children :: "dom list \<Rightarrow> dom list" where
  "title_children f = filter (\<lambda>c. tag_of c = Some ''title'') f"

text \<open>
  \<open>node_done g g'\<close>: what the pass makes of a node group \<open>g\<close>.  The result \<open>g'\<close> carries
  the list-item role; when the text of \<open>g\<close> is not blank its first child is a new title
  that holds this text; its title children are that title and the title children that
  \<open>g\<close> keeps once its first title element is removed; and every shape inside is hidden.
\<close>

definition node_done :: "dom \<Rightarrow> dom \<Rightarrow> bool" where
  "node_done g g' =
     (sel_listitem [] (root_attrs g')
      \<and> take (length (node_title (childNodes g))) (childNodes g') = node_title (childNodes g)
      \<and> length (title_children (childNodes g'))
          = length (node_title (childNodes g))
            + length (title_children (remove_first (sel_tag ''title'') (childNodes g)))
      \<and> list_all (all_elem shape_ok) (childNodes g'))"

text \<open>
  \<open>hv T n n'\<close>: \<open>n'\<close> is \<open>n\<close> with some elements hidden, all of them with a tag in \<open>T\<close>.
\<close>

inductive hv :: "(string \<Rightarrow> bool) \<Rightarrow> dom \<Rightarrow> dom \<Rightarrow> bool" for T where
  hv_txt: "hv T (Txt s) (Txt s)"
| hv_elem: "a' = a \<or> (T t \<and> a' = hide a) \<Longrightarrow> list_all2 (hv T) ch ch'
     \<Longrightarrow> hv T (Elem t a ch) (Elem t a' ch')"
text \<open>
  Three more notions for the proofs.  An element may be hidden by the pass unless it is a
  \<open>title\<close>.  \<open>iff_ok\<close>: an element carries the list-item role exactly when it is a node
  group.  \<open>pass\<close> is what the function does to one child of the root once both of its
  tests have succeeded.
\<close>

definition hidable :: "string \<Rightarrow> bool" where
  "hidable t = (t \<noteq> ''title'')"

definition iff_ok :: "string \<Rightarrow> attrs \<Rightarrow> bool" where
  "iff_ok t a = (sel_listitem t a = sel_node t a)"

definition pass :: "bool \<Rightarrow> dom \<Rightarrow> dom" where
  "pass b n = hide_markers b (update_all sel_edge hide (walk n))"

text \<open>
  Documents for the examples.  \<open>rendered_flowchart\<close> has a marker, two edge groups and two
  node groups, the first with an old title and a nested label, the second with its text in
  two pieces; \<open>rendered_flowchart_done\<close> is what the function makes of it.  \<open>two_titles\<close>
  is one node group with two title children.  \<open>no_nodes\<close> has an element with a flowchart
  id, an edge group and a marker, and no node group.
\<close>

definition rendered_flowchart :: "dom list" where
  "rendered_flowchart =
     [Elem ''defs'' [] [Elem ''marker'' [(''id'', ''arrow'')] [Elem ''path'' [] []]],
      Elem ''g'' [(''class'', ''edgePaths'')]
        [Elem ''path'' [(''class'', ''flowchart-link'')] []],
      Elem ''g'' [(''class'', ''edgeLabel'')] [Elem ''text'' [] [Txt ''yes'']],
      Elem ''g'' [(''class'', ''node default''), (''id'', ''flowchart-A-0'')]
        [Elem ''title'' [] [Txt ''old''],
         Elem ''rect'' [] [],
         Elem ''g'' [(''class'', ''label'')] [Elem ''text'' [] [Txt '' Start '']]],
      Elem ''g'' [(''class'', ''node''), (''id'', ''flowchart-B-1'')]
        [Elem ''polygon'' [] [],
         Elem ''text'' [] [Txt ''Go''],
         Elem ''text'' [] [Txt ''on'']]]"

definition rendered_flowchart_done :: "dom list" where
  "rendered_flowchart_done =
     [Elem ''defs'' []
        [Elem ''marker'' [(''id'', ''arrow''), (''aria-hidden'', ''true'')] [Elem ''path'' [] []]],
      Elem ''g'' [(''class'', ''edgePaths''), (''aria-hidden'', ''true'')]
        [Elem ''path'' [(''class'', ''flowchart-link'')] []],
      Elem ''g'' [(''class'', ''edgeLabel''), (''aria-hidden'', ''true'')]
        [Elem ''text'' [] [Txt ''yes'']],
      Elem ''g'' [(''class'', ''node default''), (''id'', ''flowchart-A-0''),
                  (''role'', ''listitem'')]
        [Elem ''title'' [] [Txt ''Start''],
         Elem ''rect'' [(''aria-hidden'', ''true'')] [],
         Elem ''g'' [(''class'', ''label'')] [Elem ''text'' [] [Txt '' Start '']]],
      Elem ''g'' [(''class'', ''node''), (''id'', ''flowchart-B-1''), (''role'', ''listitem'')]
        [Elem ''title'' [] [Txt ''Go on''],
         Elem ''polygon'' [(''aria-hidden'', ''true'')] [],
         Elem ''text'' [] [Txt ''Go''],
         Elem ''text'' [(''aria-hidden'', ''true'')] [Txt ''on'']]]"

definition two_titles :: "dom list" where
  "two_titles =
     [Elem ''g'' [(''class'', ''node''), (''id'', ''flowchart-A-0'')]
        [Elem ''title'' [] [Txt ''old''],
         Elem ''title'' [] [Txt ''older''],
         Elem ''text'' [] [Txt ''Start'']]]"

definition no_nodes :: "dom list" where
  "no_nodes =
     [Elem ''defs'' [] [Elem ''marker'' [(''id'', ''arrow'')] []],
      Elem ''g'' [(''id'', ''flowchart-root'')]
        [Elem ''g'' [(''class'', ''edgePath'')] [Elem ''path'' [] []]]]"


section \<open>Properties of the string helpers\<close>

lemma split_nl_nonempty: "split_nl s \<noteq> []"
  by (induction s) (auto split: list.splits)

lemma join_split_nl: "join_nl (split_nl s) = s"
proof (induction s)
  case Nil
  show ?case by simp
next
  case (Cons c cs)
  obtain l ls where sp: "split_nl cs = l # ls"
    using split_nl_nonempty [of cs] by (cases "split_nl cs") auto
  show ?case
  proof (cases "c = CHR 0x0A")
    case True
    with Cons sp show ?thesis by simp
  next
    case False
    with Cons sp show ?thesis by (cases ls) auto
  qed
qed

lemma length_trim_le: "length (trim s) \<le> length s"
proof -
  have "length (trim s) \<le> length (dropWhile is_ws s)"
    unfolding trim_def using length_dropWhile_le [of is_ws "rev (dropWhile is_ws s)"] by simp
  also have "\<dots> \<le> length s" by (rule length_dropWhile_le)
  finally show ?thesis .
qed

lemma length_join_tl: "length (join_nl ls) \<le> length (join_nl (l # ls))"
  by (cases ls) auto

section \<open>Frontmatter stripping\<close>

lemma find_close_length:
  "find_close ls = Some a \<Longrightarrow> length (join_nl a) \<le> length (join_nl ls)"
proof (induction ls)
  case Nil
  then show ?case by simp
next
  case (Cons l ls)
  show ?case
  proof (cases "trim l = ''---''")
    case True
    with Cons.prems have "a = ls" by simp
    then show ?thesis by (simp add: length_join_tl)
  next
    case False
    with Cons have "length (join_nl a) \<le> length (join_nl ls)" by simp
    also have "\<dots> \<le> length (join_nl (l # ls))" by (rule length_join_tl)
    finally show ?thesis .
  qed
qed

text \<open>
  The loop stops at the first fence line: the lines before it hold no fence, and the
  lines after it are what is returned.
\<close>

lemma find_close_Some:
  "find_close ls = Some a \<Longrightarrow>
     \<exists>block fence. ls = block @ fence # a \<and> (\<forall>l\<in>set block. trim l \<noteq> ''---'')
        \<and> trim fence = ''---''"
proof (induction ls)
  case Nil
  then show ?case by simp
next
  case (Cons l ls)
  show ?case
  proof (cases "trim l = ''---''")
    case True
    with Cons.prems have "l # ls = [] @ l # a \<and> (\<forall>x\<in>set []. trim x \<noteq> ''---'')
        \<and> trim l = ''---''" by simp
    then show ?thesis by (intro exI)
  next
    case False
    with Cons obtain block fence where "ls = block @ fence # a"
      "\<forall>l\<in>set block. trim l \<noteq> ''---''" "trim fence = ''---''" by auto
    with False have "l # ls = (l # block) @ fence # a
        \<and> (\<forall>x\<in>set (l # block). trim x \<noteq> ''---'') \<and> trim fence = ''---''" by simp
    then show ?thesis by (intro exI)
  qed
qed

lemma find_close_None: "(find_close ls = None) = (\<not> list_ex (\<lambda>l. trim l = ''---'') ls)"
  by (induction ls) auto

text \<open>The stripper never throws: \<open>split\<close> always yields a first line.\<close>

lemma skipFrontmatter_total: "\<exists>y. skipFrontmatter s = Inr y"
  using split_nl_nonempty [of "trim s"]
  by (auto simp: skipFrontmatter_def split: list.splits option.splits)

lemma skipFrontmatter_unchanged:
  "\<not> has_frontmatter s \<Longrightarrow> skipFrontmatter s = Inr s"
  using split_nl_nonempty [of "trim s"]
  by (auto simp: skipFrontmatter_def has_frontmatter_def find_close_None [symmetric]
           split: list.splits option.splits)

lemma skipFrontmatter_cut:
  assumes "has_frontmatter s" and "skipFrontmatter s = Inr y"
  shows "\<exists>l0 block fence rest.
           split_nl (trim s) = l0 # block @ fence # rest
         \<and> trim l0 = ''---'' \<and> (\<forall>l\<in>set block. trim l \<noteq> ''---'') \<and> trim fence = ''---''
         \<and> y = join_nl rest"
proof -
  from assms(1) obtain l0 ls where sp: "split_nl (trim s) = l0 # ls"
    and l0: "trim l0 = ''---''" and fc: "find_close ls \<noteq> None"
    by (auto simp: has_frontmatter_def find_close_None split: list.splits)
  from fc obtain a where a: "find_close ls = Some a" by auto
  from assms(2) sp l0 a have y: "y = join_nl a" by (simp add: skipFrontmatter_def)
  from find_close_Some [OF a] obtain block fence where "ls = block @ fence # a"
    "\<forall>l\<in>set block. trim l \<noteq> ''---''" "trim fence = ''---''" by blast
  with sp l0 y show ?thesis by blast
qed

text \<open>Cutting a block always loses at least the two fence lines: the result is shorter.\<close>

lemma skipFrontmatter_shorter:
  assumes "has_frontmatter s" and "skipFrontmatter s = Inr y"
  shows "length y < length s"
proof -
  from assms(1) obtain l0 rest where sp: "split_nl (trim s) = l0 # rest"
    and l0: "trim l0 = ''---''" and fc': "find_close rest \<noteq> None"
    by (auto simp: has_frontmatter_def find_close_None split: list.splits)
  from fc' obtain a where fc: "find_close rest = Some a" by auto
  from assms(2) sp l0 fc have y: "y = join_nl a"
    by (simp add: skipFrontmatter_def)
  from fc have ne: "rest \<noteq> []" by auto
  have "length (join_nl a) \<le> length (join_nl rest)" using fc by (rule find_close_length)
  also have "\<dots> < length (join_nl (l0 # rest))" using ne by (cases rest) auto
  also have "\<dots> = length (trim s)" using join_split_nl [of "trim s"] sp by simp
  also have "\<dots> \<le> length s" by (rule length_trim_le)
  finally show ?thesis using y by simp
qed

lemma skipFrontmatter_fixpoint:
  "(skipFrontmatter y = Inr y) = (\<not> has_frontmatter y)"
  using skipFrontmatter_unchanged [of y] skipFrontmatter_shorter [of y y] by auto

text \<open>
  C2, as the code has it.  Stripping never fails.  When the source has a frontmatter
  block, the lines of the trimmed source are the opening fence, a block of lines none of
  which is a fence, the closing fence, and the remaining lines; the result is the
  remaining lines joined by line feeds: one block is removed, up to the first closing
  fence.  When the source has no opening or no closing fence it is returned unchanged.
  A second run changes nothing exactly when the first result does not itself open with a
  frontmatter block.
\<close>

theorem skipFrontmatter_strips_first_block:
  "\<exists>y. skipFrontmatter x = Inr y
     \<and> (has_frontmatter x \<longrightarrow>
          (\<exists>l0 block fence rest.
              split_nl (trim x) = l0 # block @ fence # rest
            \<and> trim l0 = ''---'' \<and> (\<forall>l\<in>set block. trim l \<noteq> ''---'') \<and> trim fence = ''---''
            \<and> y = join_nl rest))
     \<and> (\<not> has_frontmatter x \<longrightarrow> y = x)
     \<and> ((skipFrontmatter y = Inr y) = (\<not> has_frontmatter y))"
proof -
  from skipFrontmatter_total [of x] obtain y where y: "skipFrontmatter x = Inr y" by blast
  have cut: "has_frontmatter x \<longrightarrow>
          (\<exists>l0 block fence rest.
              split_nl (trim x) = l0 # block @ fence # rest
            \<and> trim l0 = ''---'' \<and> (\<forall>l\<in>set block. trim l \<noteq> ''---'') \<and> trim fence = ''---''
            \<and> y = join_nl rest)"
    using skipFrontmatter_cut [OF _ y] by blast
  have same: "\<not> has_frontmatter x \<longrightarrow> y = x"
    using skipFrontmatter_unchanged [of x] y by auto
  from y cut same skipFrontmatter_fixpoint [of y] show ?thesis by blast
qed

text \<open>
  C2, witness: \<open>---\<newline>a: b\<newline>---\<newline>pie\<close> has a block; its lines are the fence, the block
  \<open>a: b\<close>, the fence and \<open>pie\<close>; the result \<open>pie\<close> has no block, and stripping it again
  returns it.
\<close>

theorem skipFrontmatter_strips_first_block_witness:
  "skipFrontmatter ''---\<newline>a: b\<newline>---\<newline>pie'' = Inr ''pie''
   \<and> has_frontmatter ''---\<newline>a: b\<newline>---\<newline>pie''
   \<and> split_nl (trim ''---\<newline>a: b\<newline>---\<newline>pie'') = ''---'' # [''a: b''] @ ''---'' # [''pie'']
   \<and> join_nl [''pie''] = ''pie''
   \<and> \<not> has_frontmatter ''pie''
   \<and> skipFrontmatter ''pie'' = Inr ''pie''"
proof -
  have h: "skipFrontmatter ''---\<newline>a: b\<newline>---\<newline>pie'' = Inr ''pie''"
    by (simp add: skipFrontmatter_def trim_def is_ws_def)
  have f: "has_frontmatter ''---\<newline>a: b\<newline>---\<newline>pie''"
    by (simp add: has_frontmatter_def trim_def is_ws_def)
  have s: "split_nl (trim ''---\<newline>a: b\<newline>---\<newline>pie'') = ''---'' # [''a: b''] @ ''---'' # [''pie'']"
    by (simp add: trim_def is_ws_def)
  have j: "join_nl [''pie''] = ''pie''" by simp
  have n: "\<not> has_frontmatter ''pie''"
    by (simp add: has_frontmatter_def trim_def is_ws_def)
  from skipFrontmatter_strips_first_block [of "''---\<newline>a: b\<newline>---\<newline>pie''"] h n
  have "skipFrontmatter ''pie'' = Inr ''pie''" by auto
  with h f s j n show ?thesis by blast
qed

text \<open>
  C2, counterexample to idempotence for all inputs: four fence lines followed by \<open>c\<close>.
  The first run cuts the first two fences, the second run cuts the other two.
\<close>

theorem skipFrontmatter_not_idempotent:
  "skipFrontmatter ''---\<newline>---\<newline>---\<newline>---\<newline>c'' = Inr ''---\<newline>---\<newline>c''
   \<and> skipFrontmatter ''---\<newline>---\<newline>c'' = Inr ''c''
   \<and> skipFrontmatter ''---\<newline>---\<newline>c'' \<noteq> Inr ''---\<newline>---\<newline>c''"
  by (simp add: skipFrontmatter_def trim_def is_ws_def)

section \<open>Classification\<close>

text \<open>The classifier never throws and always returns one of its eleven tags.\<close>

lemma detectDiagramType_total:
  "\<exists>t. detectDiagramType s = Inr t \<and>
     t \<in> set [''flowchart'', ''pie'', ''classDiagram'', ''sequenceDiagram'', ''gantt'',
              ''journey'', ''mindmap'', ''timeline'', ''xychart'', ''stateDiagram'', ''unknown'']"
  using split_nl_nonempty [of "trim s"]
  by (cases "split_nl (trim s)") (simp_all add: detectDiagramType_def classify_line_def)

text \<open>
  C3: every first line with a known prefix is to yield its type.  The if-chain of
  \<open>detectDiagramType\<close> ends after \<open>stateDiagram\<close>: an \<open>erDiagram\<close> source falls through to
  \<open>unknown\<close>.
\<close>

theorem detectDiagramType_erDiagram_unknown:
  "detectDiagramType ''erDiagram\<newline>    CUSTOMER ||--o{ ORDER : places'' = Inr ''unknown''"
  by (simp add: detectDiagramType_def trim_def is_ws_def classify_line_def)

text \<open>
  C4: a source with a frontmatter block is to be classified by the first line after the
  block.  \<open>detectDiagramType\<close> reads the first line of the trimmed source as it is, which
  here is the fence, and answers \<open>unknown\<close> where \<open>pie\<close> is expected.
\<close>

theorem detectDiagramType_frontmatter_unknown:
  \<open>detectDiagramType ''---\<newline>config:\<newline>  theme: dark\<newline>---\<newline>\<newline>pie\<newline>"Dogs":1'' = Inr ''unknown''\<close>
  by (simp add: detectDiagramType_def trim_def is_ws_def classify_line_def)

section \<open>The annotation expressions\<close>

lemma startsWith_append: "startsWith s p \<Longrightarrow> startsWith (s @ e) p"
  by (induction s p rule: startsWith.induct) auto

lemma startsWith_length: "startsWith s p \<Longrightarrow> length p \<le> length s"
  by (induction s p rule: startsWith.induct) auto

lemma startsWith_conv: "startsWith s p = (take (length p) s = p)"
  by (induction s p rule: startsWith.induct) auto

lemma is_lt_is_ws: "is_lt c \<Longrightarrow> is_ws c"
  by (auto simp: is_lt_def is_ws_def)

lemma star_run_hd:
  "\<exists>rest. star_run f p s cs = (p + length (takeWhile f s), dropWhile f s, cs) # rest"
proof (induction s arbitrary: p)
  case Nil
  show ?case by simp
next
  case (Cons x xs)
  show ?case
  proof (cases "f x")
    case True
    from Cons [of "Suc p"] obtain rest where
      "star_run f (Suc p) xs cs = (Suc p + length (takeWhile f xs), dropWhile f xs, cs) # rest"
      by blast
    with True show ?thesis by simp
  next
    case False
    then show ?thesis by simp
  qed
qed

lemma rx_run_str:
  "rx_run (rx_str kw) (p, s, cs) =
     (if startsWith s kw then [(p + length kw, drop (length kw) s, cs)] else [])"
proof (induction kw arbitrary: p s)
  case Nil
  show ?case by simp
next
  case (Cons k kw)
  show ?case
  proof (cases s)
    case Nil
    then show ?thesis by simp
  next
    case (Cons x xs)
    with Cons.IH show ?thesis by simp
  qed
qed

lemma star_then:
  assumes fail: "\<And>p x xs. f x \<Longrightarrow> rx_run r (p, x # xs, cs) = []"
  shows "rx_run (Seq (Star f) r) (p, s, cs) = rx_run r (p + length (takeWhile f s), dropWhile f s, cs)"
proof (induction s arbitrary: p)
  case Nil
  show ?case by simp
next
  case (Cons x xs)
  have "rx_run (Seq (Star f) r) (Suc p, xs, cs)
          = rx_run r (Suc p + length (takeWhile f xs), dropWhile f xs, cs)"
    by (rule Cons.IH)
  then show ?case using fail [of x p xs] by simp
qed

lemma str_fails_on_other:
  "kw \<noteq> [] \<Longrightarrow> x \<noteq> hd kw \<Longrightarrow> rx_run (Seq (rx_str kw) r) (p, x # xs, cs) = []"
  by (cases kw) auto

lemma marker_rx_unfold:
  "marker_rx kw = Seq (Lit CHR ''%'') (Seq (Lit CHR ''%'') (Seq (Star is_ws) (Seq (rx_str kw) marker_tail)))"
  by (simp add: marker_rx_def marker_tail_def)

lemma rx_run_marker:
  assumes kw: "kw \<noteq> []" "\<not> is_ws (hd kw)"
  shows "rx_run (marker_rx kw) (p, s, cs) =
     (case after_marker kw s of
        None \<Rightarrow> []
      | Some t \<Rightarrow> rx_run marker_tail (p + (length s - length t), t, cs))"
proof (cases s)
  case Nil
  then show ?thesis by (simp add: marker_rx_unfold)
next
  case (Cons c1 s1)
  note s = this
  show ?thesis
  proof (cases s1)
    case Nil
    with s show ?thesis by (simp add: marker_rx_unfold)
  next
    case (Cons c2 r)
    have fail: "\<And>q x xs. is_ws x \<Longrightarrow> rx_run (Seq (rx_str kw) marker_tail) (q, x # xs, cs) = []"
      using kw by (intro str_fails_on_other) auto
    have st: "rx_run (Seq (Star is_ws) (Seq (rx_str kw) marker_tail)) (Suc (Suc p), r, cs)
        = rx_run (Seq (rx_str kw) marker_tail)
            (Suc (Suc p) + length (takeWhile is_ws r), dropWhile is_ws r, cs)"
      using fail by (rule star_then)
    have len: "length r = length (takeWhile is_ws r) + length (dropWhile is_ws r)"
      by (metis length_append takeWhile_dropWhile_id)
    show ?thesis
    proof (cases "c1 = CHR ''%'' \<and> c2 = CHR ''%''")
      case False
      with s Cons show ?thesis by (auto simp: marker_rx_unfold)
    next
      case True
      show ?thesis
      proof (cases "startsWith (dropWhile is_ws r) kw")
        case False
        with True s Cons st show ?thesis
          by (simp add: marker_rx_unfold rx_run_str)
      next
        case sw: True
        then have "length kw \<le> length (dropWhile is_ws r)"
          by (rule startsWith_length)
        with len have pos: "Suc (Suc (p + length (takeWhile is_ws r) + length kw))
            = p + (Suc (Suc (length r)) - (length (dropWhile is_ws r) - length kw))"
          by simp
        from True s Cons st sw pos show ?thesis
          by (simp add: marker_rx_unfold rx_run_str)
      qed
    qed
  qed
qed

lemma rx_run_Seq_Eps: "rx_run (Seq r Eps) st = rx_run r st"
proof -
  have "rx_run Eps = (\<lambda>st. [st])" by (rule ext) simp
  then show ?thesis by (simp add: concat_map_singleton)
qed

lemma rx_run_group_plus:
  "rx_run (Seq (Grp 1 (Plus not_lt)) Eps) (q, x # xs, cs) =
     (if not_lt x
      then map (\<lambda>(p', s', cs'). (p', s', (1, take (p' - q) (x # xs)) # cs'))
             (star_run not_lt (Suc q) xs cs)
      else [])"
  by (simp add: rx_run_Seq_Eps Plus_def del: rx_run.simps(5)) (simp)

lemma rx_run_tail_hd:
  assumes "dropWhile is_ws t = x # xs"
  shows "\<exists>q' rest. rx_run marker_tail (q, t, cs)
           = (q', dropWhile not_lt xs, (1, x # takeWhile not_lt xs) # cs) # rest"
proof -
  from assms have nws: "\<not> is_ws x"
    by (metis hd_dropWhile list.sel(1) list.distinct(1))
  then have nlt: "not_lt x" using is_lt_is_ws by (auto simp: not_lt_def)
  obtain r1 where st: "star_run is_ws q t cs
      = (q + length (takeWhile is_ws t), dropWhile is_ws t, cs) # r1"
    using star_run_hd by blast
  let ?q1 = "q + length (takeWhile is_ws t)"
  obtain r2 where st2: "star_run not_lt (Suc ?q1) xs cs
      = (Suc ?q1 + length (takeWhile not_lt xs), dropWhile not_lt xs, cs) # r2"
    using star_run_hd by blast
  have tk: "take (Suc (length (takeWhile not_lt xs))) (x # xs) = x # takeWhile not_lt xs"
    by (simp add: take_Suc_Cons) (metis append_eq_conv_conj takeWhile_dropWhile_id)
  have "rx_run (Seq (Grp 1 (Plus not_lt)) Eps) (?q1, x # xs, cs)
      = map (\<lambda>(p', s', cs'). (p', s', (1, take (p' - ?q1) (x # xs)) # cs'))
          (star_run not_lt (Suc ?q1) xs cs)"
    using nlt by (simp only: rx_run_group_plus if_True)
  also have "\<dots> = (Suc ?q1 + length (takeWhile not_lt xs), dropWhile not_lt xs,
           (1, x # takeWhile not_lt xs) # cs)
         # map (\<lambda>(p', s', cs'). (p', s', (1, take (p' - ?q1) (x # xs)) # cs')) r2"
    using tk by (simp add: st2)
  finally have g: "\<exists>rest. rx_run (Seq (Grp 1 (Plus not_lt)) Eps) (?q1, x # xs, cs)
      = (Suc ?q1 + length (takeWhile not_lt xs), dropWhile not_lt xs,
           (1, x # takeWhile not_lt xs) # cs) # rest"
    by blast
  have "rx_run marker_tail (q, t, cs)
      = concat (map (rx_run (Seq (Grp 1 (Plus not_lt)) Eps)) (star_run is_ws q t cs))"
    by (simp add: marker_tail_def)
  with st assms g show ?thesis by auto
qed

lemma rx_search_None:
  "rx_search r p s = None \<Longrightarrow> k \<le> length s \<Longrightarrow> rx_run r (p + k, drop k s, []) = []"
proof (induction s arbitrary: p k)
  case Nil
  then show ?case by (simp split: list.splits)
next
  case (Cons x xs)
  show ?case
  proof (cases k)
    case 0
    with Cons.prems show ?thesis by (simp split: list.splits)
  next
    case (Suc j)
    from Cons.prems have "rx_search r (Suc p) xs = None" by (simp split: list.splits)
    moreover from Cons.prems Suc have "j \<le> length xs" by simp
    ultimately have "rx_run r (Suc p + j, drop j xs, []) = []" by (rule Cons.IH)
    with Suc show ?thesis by simp
  qed
qed

lemma rx_search_Some:
  "rx_search r p s = Some st \<Longrightarrow>
     \<exists>k rest. k \<le> length s \<and> rx_run r (p + k, drop k s, []) = st # rest"
proof (induction s arbitrary: p)
  case Nil
  then have "\<exists>rest. rx_run r (p + 0, drop 0 [], []) = st # rest"
    by (simp split: list.splits)
  then show ?case by blast
next
  case (Cons x xs)
  show ?case
  proof (cases "rx_run r (p, x # xs, [])")
    case Nil
    with Cons.prems have "rx_search r (Suc p) xs = Some st" by simp
    from Cons.IH [OF this] obtain k rest where
      "k \<le> length xs" "rx_run r (Suc p + k, drop k xs, []) = st # rest" by blast
    then have "Suc k \<le> length (x # xs) \<and> rx_run r (p + Suc k, drop (Suc k) (x # xs), []) = st # rest"
      by simp
    then show ?thesis by blast
  next
    case (Cons st' rest)
    with Cons.prems have "0 \<le> length (x # xs) \<and> rx_run r (p + 0, drop 0 (x # xs), []) = st # rest"
      by simp
    then show ?thesis by blast
  qed
qed

lemma trim_nonempty: "x \<in> set s \<Longrightarrow> \<not> is_ws x \<Longrightarrow> trim s \<noteq> []"
proof -
  assume x: "x \<in> set s" "\<not> is_ws x"
  have keep: "\<And>l. x \<in> set l \<Longrightarrow> x \<in> set (dropWhile is_ws l)"
  proof -
    fix l show "x \<in> set l \<Longrightarrow> x \<in> set (dropWhile is_ws l)"
      using x(2) by (induction l) auto
  qed
  from x(1) have "x \<in> set (dropWhile is_ws s)" by (rule keep)
  then have "x \<in> set (rev (dropWhile is_ws s))" by simp
  then have "x \<in> set (dropWhile is_ws (rev (dropWhile is_ws s)))" by (rule keep)
  then have "dropWhile is_ws (rev (dropWhile is_ws s)) \<noteq> []"
    by (metis empty_iff empty_set)
  then show ?thesis by (simp add: trim_def)
qed

lemma extract_field_found:
  assumes kw: "kw \<noteq> []" "\<not> is_ws (hd kw)"
    and ex: "extract_field kw s \<noteq> None"
  shows "\<exists>k\<le>length s. after_marker kw (drop k s) \<noteq> None"
proof -
  from ex obtain st where "rx_search (marker_rx kw) 0 s = Some st"
    by (auto simp: extract_field_def rx_match_def split: option.splits)
  from rx_search_Some [OF this] obtain k rest where
    k: "k \<le> length s" and run: "rx_run (marker_rx kw) (0 + k, drop k s, []) = st # rest"
    by blast
  from run have "after_marker kw (drop k s) \<noteq> None"
    by (cases "after_marker kw (drop k s)") (auto simp: rx_run_marker [OF kw])
  with k show ?thesis by blast
qed

lemma extract_field_truthy:
  assumes kw: "kw \<noteq> []" "\<not> is_ws (hd kw)"
    and ex: "k0 \<le> length u" "after_marker kw (drop k0 u) \<noteq> None"
    and ok: "\<And>k t. after_marker kw (drop k u) = Some t \<Longrightarrow> dropWhile is_ws t \<noteq> []"
  shows "\<not> falsy (extract_field kw u)"
proof -
  have run_at: "\<And>k t. after_marker kw (drop k u) = Some t \<Longrightarrow>
      \<exists>q x xs rest. dropWhile is_ws t = x # xs \<and>
        rx_run (marker_rx kw) (0 + k, drop k u, [])
          = (q, dropWhile not_lt xs, [(1, x # takeWhile not_lt xs)]) # rest"
  proof -
    fix k t assume am: "after_marker kw (drop k u) = Some t"
    from ok [OF am] obtain x xs where dw: "dropWhile is_ws t = x # xs"
      by (cases "dropWhile is_ws t") auto
    from rx_run_tail_hd [OF dw] obtain q' rest where
      "rx_run marker_tail (0 + k + (length (drop k u) - length t), t, [])
        = (q', dropWhile not_lt xs, [(1, x # takeWhile not_lt xs)]) # rest"
      by blast
    with am dw show "\<exists>q x xs rest. dropWhile is_ws t = x # xs \<and>
        rx_run (marker_rx kw) (0 + k, drop k u, [])
          = (q, dropWhile not_lt xs, [(1, x # takeWhile not_lt xs)]) # rest"
      by (simp add: rx_run_marker [OF kw])
  qed
  from ex(2) obtain t0 where t0: "after_marker kw (drop k0 u) = Some t0" by auto
  from run_at [OF t0] have ne0: "rx_run (marker_rx kw) (0 + k0, drop k0 u, []) \<noteq> []" by auto
  have "rx_search (marker_rx kw) 0 u \<noteq> None"
  proof
    assume "rx_search (marker_rx kw) 0 u = None"
    from rx_search_None [OF this ex(1)] ne0 show False by simp
  qed
  then obtain st where st: "rx_search (marker_rx kw) 0 u = Some st"
    by (cases "rx_search (marker_rx kw) 0 u") simp_all
  from rx_search_Some [OF st] obtain k rest where
    run: "rx_run (marker_rx kw) (0 + k, drop k u, []) = st # rest" by blast
  then obtain t where am: "after_marker kw (drop k u) = Some t"
    by (cases "after_marker kw (drop k u)") (auto simp: rx_run_marker [OF kw])
  from run_at [OF am] run obtain q x xs where
    dw: "dropWhile is_ws t = x # xs"
    and sth: "st = (q, dropWhile not_lt xs, [(1, x # takeWhile not_lt xs)])"
    by auto
  from dw have "\<not> is_ws x" by (metis hd_dropWhile list.sel(1) list.distinct(1))
  then have "trim (x # takeWhile not_lt xs) \<noteq> []"
    by (intro trim_nonempty [of x]) auto
  with st sth show ?thesis
    by (simp add: extract_field_def rx_match_def falsy_def group_text_def rx_group_def)
qed

lemma after_marker_decomp:
  "after_marker kw a = Some t \<Longrightarrow> \<exists>pre. a = pre @ kw @ t"
proof (induction kw a rule: after_marker.induct)
  case (1 kw c1 c2 r)
  then have sw: "startsWith (dropWhile is_ws r) kw"
    and t: "t = drop (length kw) (dropWhile is_ws r)"
    by (auto split: if_splits)
  from sw have "dropWhile is_ws r = kw @ t"
    unfolding t startsWith_conv by (metis append_take_drop_id)
  then have "c1 # c2 # r = (c1 # c2 # takeWhile is_ws r) @ kw @ t"
    by (metis append_Cons takeWhile_dropWhile_id)
  then show ?case by blast
qed simp_all

lemma after_marker_append:
  assumes "kw \<noteq> []" and "after_marker kw a = Some t"
  shows "after_marker kw (a @ e) = Some (t @ e)"
proof -
  from assms(2) obtain c1 c2 r where a: "a = c1 # c2 # r"
    by (cases "(kw, a)" rule: after_marker.cases) auto
  from assms(2) a have pc: "c1 = CHR ''%''" "c2 = CHR ''%''"
    and sw: "startsWith (dropWhile is_ws r) kw"
    and t: "t = drop (length kw) (dropWhile is_ws r)"
    by (auto split: if_splits)
  have ne: "dropWhile is_ws r \<noteq> []"
  proof
    assume emp: "dropWhile is_ws r = []"
    from sw [unfolded emp] assms(1) show False by (cases kw) simp_all
  qed
  then obtain x where "x \<in> set r" "\<not> is_ws x"
    by (metis dropWhile_eq_Nil_conv)
  then have dw: "dropWhile is_ws (r @ e) = dropWhile is_ws r @ e"
    by (rule dropWhile_append1)
  from sw have len: "length kw \<le> length (dropWhile is_ws r)"
    by (rule startsWith_length)
  from sw have "startsWith (dropWhile is_ws r @ e) kw" by (rule startsWith_append)
  with a pc dw t len show ?thesis by simp
qed

lemma last_nonws_unique:
  assumes eq: "a @ x # b = c @ y # d"
    and b: "\<forall>z\<in>set b. is_ws z" and d: "\<forall>z\<in>set d. is_ws z"
    and x: "\<not> is_ws x" and y: "\<not> is_ws y"
  shows "x = y"
proof -
  have l: "dropWhile is_ws (rev (a @ x # b)) = x # rev a"
    using b x by (simp add: dropWhile_append3)
  have r: "dropWhile is_ws (rev (c @ y # d)) = y # rev c"
    using d y by (simp add: dropWhile_append3)
  from eq l r show ?thesis by simp
qed

lemma marker_followed:
  assumes u: "u = v @ z # w" and w: "\<forall>c\<in>set w. is_ws c" and z: "\<not> is_ws z"
    and kw: "kw \<noteq> []" "\<not> is_ws (last kw)" "z \<noteq> last kw"
    and am: "after_marker kw (drop k u) = Some t"
  shows "dropWhile is_ws t \<noteq> []"
proof
  assume "dropWhile is_ws t = []"
  then have t: "\<forall>c\<in>set t. is_ws c" by (simp add: dropWhile_eq_Nil_conv)
  from after_marker_decomp [OF am] obtain pre where "drop k u = pre @ kw @ t" by blast
  then have d: "take k u @ (pre @ kw @ t) = u" by (metis append_take_drop_id)
  have "(take k u @ pre @ butlast kw) @ last kw # t = take k u @ (pre @ kw @ t)"
    using append_butlast_last_id [OF kw(1)] by (metis append.assoc append_Cons append_Nil)
  also have "\<dots> = u" by (rule d)
  also have "\<dots> = v @ z # w" by (rule u)
  finally have "(take k u @ pre @ butlast kw) @ last kw # t = v @ z # w" .
  from last_nonws_unique [OF this t w kw(2) z] kw(3) show False by simp
qed

lemma appended_truthy:
  assumes kw: "kw \<noteq> []" "\<not> is_ws (hd kw)" "\<not> is_ws (last kw)" "z \<noteq> last kw"
    and z: "\<not> is_ws z"
    and ex: "extract_field kw s \<noteq> None \<or> (\<exists>a b. e @ [z, CHR 0x0A] = a @ b \<and> after_marker kw b \<noteq> None)"
  shows "\<not> falsy (extract_field kw (s @ e @ [z, CHR 0x0A]))"
proof -
  let ?u = "s @ e @ [z, CHR 0x0A]"
  have u: "?u = (s @ e) @ z # [CHR 0x0A]" by simp
  have w: "\<forall>c\<in>set [CHR 0x0A]. is_ws c" by (simp add: is_ws_def)
  have ok: "\<And>k t. after_marker kw (drop k ?u) = Some t \<Longrightarrow> dropWhile is_ws t \<noteq> []"
    using marker_followed [OF u w z kw(1,3,4)] by blast
  from ex have "\<exists>k0\<le>length ?u. after_marker kw (drop k0 ?u) \<noteq> None"
  proof
    assume "extract_field kw s \<noteq> None"
    from extract_field_found [OF kw(1,2) this] obtain k t where
      k: "k \<le> length s" and am: "after_marker kw (drop k s) = Some t" by auto
    from after_marker_append [OF kw(1) am, of "e @ [z, CHR 0x0A]"] k
    have "after_marker kw (drop k ?u) \<noteq> None" by simp
    moreover from k have "k \<le> length ?u" by simp
    ultimately show ?thesis by blast
  next
    assume "\<exists>a b. e @ [z, CHR 0x0A] = a @ b \<and> after_marker kw b \<noteq> None"
    then obtain a b where ab: "e @ [z, CHR 0x0A] = a @ b" and am: "after_marker kw b \<noteq> None"
      by blast
    have "?u = (s @ a) @ b" using ab by simp
    then have "drop (length (s @ a)) ?u = b" by (metis append_eq_conv_conj)
    moreover have "length (s @ a) \<le> length ?u" using ab
      by (metis \<open>?u = (s @ a) @ b\<close> length_append le_add1)
    ultimately show ?thesis using am by metis
  qed
  then obtain k0 where "k0 \<le> length ?u" "after_marker kw (drop k0 ?u) \<noteq> None" by blast
  from extract_field_truthy [OF kw(1,2) this ok] show ?thesis .
qed

lemma falsy_not_None: "\<not> falsy v \<Longrightarrow> v \<noteq> None"
  by (cases v) (simp_all add: falsy_def)

lemma ensureMetadata_meta:
  "ensureMetadata s = (u, m, a) \<Longrightarrow> m = parseMermaidMetadata u"
  by (auto simp: ensureMetadata_def Let_def)

lemma kw_title: "''accTitle'' \<noteq> []" "\<not> is_ws (hd ''accTitle'')" "\<not> is_ws (last ''accTitle'')"
  by (simp_all add: is_ws_def)

lemma kw_descr: "''accDescr'' \<noteq> []" "\<not> is_ws (hd ''accDescr'')" "\<not> is_ws (last ''accDescr'')"
  by (simp_all add: is_ws_def)

lemma title_line_marker: "after_marker ''accTitle'' (title_line @ r) \<noteq> None"
  by (simp add: title_line_def is_ws_def)

lemma descr_line_marker: "after_marker ''accDescr'' (descr_line @ r) \<noteq> None"
  by (simp add: descr_line_def is_ws_def)

lemma title_line_end: "title_line = butlast title_line @ [CHR ''m'']"
  by (simp add: title_line_def)

lemma descr_line_end: "descr_line = butlast descr_line @ [CHR ''.'']"
  by (simp add: descr_line_def)

lemma both_appended:
  fixes s nl :: string
  defines "u \<equiv> s @ nl @ title_line @ ''\<newline>'' @ descr_line @ ''\<newline>''"
  shows "\<not> falsy (extract_field ''accTitle'' u)" and "\<not> falsy (extract_field ''accDescr'' u)"
proof -
  let ?e = "nl @ title_line @ ''\<newline>'' @ butlast descr_line"
  have u: "u = s @ ?e @ [CHR ''.'', CHR 0x0A]"
    unfolding u_def using descr_line_end by (metis append.assoc append_Cons append_Nil)
  have z: "\<not> is_ws CHR ''.''" by (simp add: is_ws_def)
  have split: "?e @ [CHR ''.'', CHR 0x0A] = nl @ title_line @ ''\<newline>'' @ descr_line @ ''\<newline>''"
    using descr_line_end by (metis append.assoc append_Cons append_Nil)
  have "\<exists>a b. ?e @ [CHR ''.'', CHR 0x0A] = a @ b \<and> after_marker ''accTitle'' b \<noteq> None"
    using split title_line_marker by blast
  then show "\<not> falsy (extract_field ''accTitle'' u)"
    unfolding u by (intro appended_truthy kw_title z) simp_all
  have "?e @ [CHR ''.'', CHR 0x0A] = (nl @ title_line @ ''\<newline>'') @ descr_line @ ''\<newline>''"
    using split by simp
  then have "\<exists>a b. ?e @ [CHR ''.'', CHR 0x0A] = a @ b \<and> after_marker ''accDescr'' b \<noteq> None"
    using descr_line_marker by blast
  then show "\<not> falsy (extract_field ''accDescr'' u)"
    unfolding u by (intro appended_truthy kw_descr z) simp_all
qed

lemma title_appended:
  fixes s nl :: string
  defines "u \<equiv> s @ nl @ title_line @ ''\<newline>''"
  assumes d: "\<not> falsy (extract_field ''accDescr'' s)"
  shows "\<not> falsy (extract_field ''accTitle'' u)" and "\<not> falsy (extract_field ''accDescr'' u)"
proof -
  let ?e = "nl @ butlast title_line"
  have split: "?e @ [CHR ''m'', CHR 0x0A] = nl @ title_line @ ''\<newline>''"
    using title_line_end by (metis append.assoc append_Cons append_Nil)
  have u: "u = s @ ?e @ [CHR ''m'', CHR 0x0A]"
    unfolding u_def using split by simp
  have z: "\<not> is_ws CHR ''m''" by (simp add: is_ws_def)
  have "\<exists>a b. ?e @ [CHR ''m'', CHR 0x0A] = a @ b \<and> after_marker ''accTitle'' b \<noteq> None"
    using split title_line_marker by blast
  then show "\<not> falsy (extract_field ''accTitle'' u)"
    unfolding u by (intro appended_truthy kw_title z) simp_all
  from d have "extract_field ''accDescr'' s \<noteq> None" by (rule falsy_not_None)
  then show "\<not> falsy (extract_field ''accDescr'' u)"
    unfolding u by (intro appended_truthy kw_descr z) simp_all
qed

lemma descr_appended:
  fixes s nl :: string
  defines "u \<equiv> s @ nl @ descr_line @ ''\<newline>''"
  assumes t: "\<not> falsy (extract_field ''accTitle'' s)"
  shows "\<not> falsy (extract_field ''accTitle'' u)" and "\<not> falsy (extract_field ''accDescr'' u)"
proof -
  let ?e = "nl @ butlast descr_line"
  have split: "?e @ [CHR ''.'', CHR 0x0A] = nl @ descr_line @ ''\<newline>''"
    using descr_line_end by (metis append.assoc append_Cons append_Nil)
  have u: "u = s @ ?e @ [CHR ''.'', CHR 0x0A]"
    unfolding u_def using split by simp
  have z: "\<not> is_ws CHR ''.''" by (simp add: is_ws_def)
  have "\<exists>a b. ?e @ [CHR ''.'', CHR 0x0A] = a @ b \<and> after_marker ''accDescr'' b \<noteq> None"
    using split descr_line_marker by blast
  then show "\<not> falsy (extract_field ''accDescr'' u)"
    unfolding u by (intro appended_truthy kw_descr z) simp_all
  from t have "extract_field ''accTitle'' s \<noteq> None" by (rule falsy_not_None)
  then show "\<not> falsy (extract_field ''accTitle'' u)"
    unfolding u by (intro appended_truthy kw_title z) simp_all
qed

lemma ensureMetadata_truthy:
  assumes "ensureMetadata s = (u, m, a)"
  shows "\<not> falsy (title m) \<and> \<not> falsy (description m)"
proof -
  let ?nl = "if endsWith s ''\<newline>'' then [] else ''\<newline>''"
  let ?ft = "falsy (extract_field ''accTitle'' s)"
  let ?fd = "falsy (extract_field ''accDescr'' s)"
  from assms have m: "m = parseMermaidMetadata u"
    by (rule ensureMetadata_meta)
  consider (both) "?ft" "?fd" | (t) "?ft" "\<not> ?fd" | (d) "\<not> ?ft" "?fd" | (none) "\<not> ?ft" "\<not> ?fd"
    by blast
  then show ?thesis
  proof cases
    case both
    with assms have "u = s @ ?nl @ title_line @ ''\<newline>'' @ descr_line @ ''\<newline>''"
      by (simp add: ensureMetadata_def Let_def missing_lines_def parseMermaidMetadata_def)
    with both_appended [of s ?nl] m show ?thesis by (simp add: parseMermaidMetadata_def)
  next
    case t
    with assms have "u = s @ ?nl @ title_line @ ''\<newline>''"
      by (simp add: ensureMetadata_def Let_def missing_lines_def parseMermaidMetadata_def)
    with title_appended [OF t(2), of ?nl] m show ?thesis by (simp add: parseMermaidMetadata_def)
  next
    case d
    with assms have "u = s @ ?nl @ descr_line @ ''\<newline>''"
      by (simp add: ensureMetadata_def Let_def missing_lines_def parseMermaidMetadata_def)
    with descr_appended [OF d(1), of ?nl] m show ?thesis by (simp add: parseMermaidMetadata_def)
  next
    case none
    with assms have "u = s"
      by (simp add: ensureMetadata_def Let_def missing_lines_def parseMermaidMetadata_def)
    with none m show ?thesis by (simp add: parseMermaidMetadata_def)
  qed
qed

text \<open>
  C8: for every source, \<open>ensureMetadata\<close> appends, after the whole source (and a line
  feed when the source does not end with one), one default annotation line for each field
  that the extractor returned as \<open>null\<close> or empty, each followed by a line feed; the
  source is a prefix of the result; the returned metadata is the extractor's reading of the
  result and has both fields non-null; and the flag is true exactly when a line was
  appended.
\<close>

theorem ensureMetadata_appends:
  assumes "ensureMetadata source = (updated, m, added)"
  shows "(let current = parseMermaidMetadata source;
              lines = (if falsy (title current) then [title_line] else []) @
                      (if falsy (description current) then [descr_line] else [])
          in updated = source @ (if lines = [] then []
                                 else (if endsWith source ''\<newline>'' then [] else ''\<newline>'')
                                      @ concat (map (\<lambda>l. l @ ''\<newline>'') lines))
             \<and> added = (lines \<noteq> []))
         \<and> prefix source updated
         \<and> m = parseMermaidMetadata updated
         \<and> title m \<noteq> None \<and> description m \<noteq> None"
proof -
  from ensureMetadata_truthy [OF assms] have nn: "title m \<noteq> None \<and> description m \<noteq> None"
    using falsy_not_None by blast
  from assms have shape: "let current = parseMermaidMetadata source;
              lines = (if falsy (title current) then [title_line] else []) @
                      (if falsy (description current) then [descr_line] else [])
          in updated = source @ (if lines = [] then []
                                 else (if endsWith source ''\<newline>'' then [] else ''\<newline>'')
                                      @ concat (map (\<lambda>l. l @ ''\<newline>'') lines))
             \<and> added = (lines \<noteq> [])"
    by (auto simp: ensureMetadata_def Let_def missing_lines_def)
  then have "prefix source updated" by (auto simp: Let_def prefix_def)
  moreover from assms have "m = parseMermaidMetadata updated"
    by (rule ensureMetadata_meta)
  ultimately show ?thesis using nn shape by blast
qed

text \<open>
  C8, witness: a flowchart source with no annotation gets both default lines.
\<close>

theorem ensureMetadata_appends_witness:
  "ensureMetadata ''flowchart TD\<newline>A[Start]'' =
     (''flowchart TD\<newline>A[Start]\<newline>%%accTitle Untitled Diagram\<newline>%%accDescr Auto-generated description for accessibility. Please customize.\<newline>'',
      \<lparr>title = Some ''Untitled Diagram'',
       description = Some ''Auto-generated description for accessibility. Please customize.''\<rparr>,
      True)
   \<and> prefix ''flowchart TD\<newline>A[Start]''
        ''flowchart TD\<newline>A[Start]\<newline>%%accTitle Untitled Diagram\<newline>%%accDescr Auto-generated description for accessibility. Please customize.\<newline>''"
proof -
  have h: "ensureMetadata ''flowchart TD\<newline>A[Start]'' =
     (''flowchart TD\<newline>A[Start]\<newline>%%accTitle Untitled Diagram\<newline>%%accDescr Auto-generated description for accessibility. Please customize.\<newline>'',
      \<lparr>title = Some ''Untitled Diagram'',
       description = Some ''Auto-generated description for accessibility. Please customize.''\<rparr>,
      True)"
    by code_simp
  from ensureMetadata_appends [OF h] h show ?thesis by blast
qed

text \<open>
  C10: a second run of \<open>ensureMetadata\<close> on the source returned by a first run appends
  nothing: it returns that source, the same metadata, and the flag false.
\<close>

theorem ensureMetadata_idempotent:
  assumes "ensureMetadata source = (updated, m, added)"
  shows "ensureMetadata updated = (updated, m, False)"
proof -
  from assms have m: "m = parseMermaidMetadata updated"
    by (rule ensureMetadata_meta)
  from ensureMetadata_truthy [OF assms] m show ?thesis
    by (simp add: ensureMetadata_def Let_def)
qed

text \<open>
  C10, witness: a pie source with a title annotation only gets the description line, and
  the second run leaves the result alone.
\<close>

theorem ensureMetadata_idempotent_witness:
  "ensureMetadata ''pie\<newline>%%accTitle T'' =
     (''pie\<newline>%%accTitle T\<newline>%%accDescr Auto-generated description for accessibility. Please customize.\<newline>'',
      \<lparr>title = Some ''T'',
       description = Some ''Auto-generated description for accessibility. Please customize.''\<rparr>,
      True)
   \<and> ensureMetadata ''pie\<newline>%%accTitle T\<newline>%%accDescr Auto-generated description for accessibility. Please customize.\<newline>'' =
     (''pie\<newline>%%accTitle T\<newline>%%accDescr Auto-generated description for accessibility. Please customize.\<newline>'',
      \<lparr>title = Some ''T'',
       description = Some ''Auto-generated description for accessibility. Please customize.''\<rparr>,
      False)"
proof -
  have h: "ensureMetadata ''pie\<newline>%%accTitle T'' =
     (''pie\<newline>%%accTitle T\<newline>%%accDescr Auto-generated description for accessibility. Please customize.\<newline>'',
      \<lparr>title = Some ''T'',
       description = Some ''Auto-generated description for accessibility. Please customize.''\<rparr>,
      True)"
    by code_simp
  from ensureMetadata_idempotent [OF h] h show ?thesis by blast
qed

section \<open>The minimal flowchart scenario\<close>

text \<open>
  C5: for the source \<open>flowchart TD\<newline>A[Start]-->B[End]\<newline>%%accTitle T\<newline>%%accDescr D\<close> the
  classifier is to return flowchart, the parser two nodes and one edge, and the narrative a
  line for \<open>End\<close> and the summary \<open>2 nodes, 1 connection\<close>.  The classifier does return
  flowchart.  The parser finds one node and no edge: the node expression is anchored at
  the start of the line, so \<open>B[End]\<close> is never read, and both edge expressions want an id
  directly before the arrow, where this line has \<open>]\<close>.  The narrative is the start item alone
  and the summary reads \<open>1 node, 0 connections\<close>.
\<close>

theorem flowchart_scenario_one_node_no_edge:
  \<open>detectDiagramType ''flowchart TD\<newline>A[Start]-->B[End]\<newline>%%accTitle T\<newline>%%accDescr D''
     = Inr ''flowchart''
   \<and> flowchart_model ''flowchart TD\<newline>A[Start]-->B[End]\<newline>%%accTitle T\<newline>%%accDescr D''
     = ([(Some ''A'', \<lparr>display_text = Some ''Start'', isQuestion = False\<rparr>)], [])
   \<and> generateFlowchartNarrative ''flowchart TD\<newline>A[Start]-->B[End]\<newline>%%accTitle T\<newline>%%accDescr D''
     = ''<p><strong>Flow:</strong></p>\<newline><ol>\<newline><li>Start at: <strong>Start</strong></li>\<newline></ol>\<newline><p style="color: #666; font-size: 0.9em; margin-top: 1rem;"><strong>Structure:</strong> 1 node, 0 connections</p>''\<close>
  by code_simp
section \<open>Rounding to a double\<close>

text \<open>
  Facts about \<open>rnd_mag\<close>, the rounding of a value from zero up with the exponent left
  unbounded: the result is within half a unit in the last place; it lies on the grid of
  the multiples of \<open>2^-1074\<close>; rounding is monotone and leaves a double as it is; and on
  the grid, where the sums of doubles lie, the error is at most \<open>2^-53\<close> of the result.
\<close>

lemma p2_pos [simp]: "0 < p2 e" by (simp add: p2_def)

lemma p2_nonneg [simp]: "0 \<le> p2 e" by (simp add: p2_def)

lemma p2_nonzero [simp]: "p2 e \<noteq> 0" by (simp add: p2_def)

lemma p2_add: "p2 (a + b) = p2 a * p2 b"
  by (simp add: p2_def power_int_add)

lemma p2_diff: "p2 (a - b) = p2 a / p2 b"
  by (simp add: p2_def power_int_diff)

lemma p2_mono: "a \<le> b \<Longrightarrow> p2 a \<le> p2 b"
  unfolding p2_def by (rule power_int_increasing) simp_all

lemma p2_strict: "a < b \<Longrightarrow> p2 a < p2 b"
  unfolding p2_def by (rule power_int_strict_increasing) simp_all

lemma p2_le_iff: "(p2 a \<le> p2 b) = (a \<le> b)"
  using p2_mono [of a b] p2_strict [of b a] by (auto simp: not_le [symmetric])

lemma p2_less_iff: "(p2 a < p2 b) = (a < b)"
  using p2_strict [of a b] p2_mono [of b a] by (auto simp: not_less [symmetric])

lemma p2_nat: "p2 (int n) = 2 ^ n"
  by (simp add: p2_def power_int_def)

lemma p2_neg_nat: "p2 (- int n) = 1 / 2 ^ n"
  by (simp add: p2_def power_int_def field_simps)

lemma p2_int: "0 \<le> e \<Longrightarrow> p2 e = of_int (2 ^ nat e)"
  by (simp add: p2_def power_int_def)

lemma p2_0: "p2 0 = 1" by (simp add: p2_def)

lemma p2_1: "p2 1 = 2" by (simp add: p2_def)

lemma bitlen_bounds: "0 < n \<Longrightarrow> 2 ^ (bitlen n - 1) \<le> n \<and> n < 2 ^ bitlen n"
proof (induction n rule: bitlen.induct)
  case (1 n)
  show ?case
  proof (cases "n div 2 = 0")
    case True
    with "1.prems" have "n = 1" by (simp add: div_eq_0_iff) 
    then show ?thesis by (simp add: bitlen.simps)
  next
    case False
    let ?b = "bitlen (n div 2)"
    from False "1.prems" "1.IH" have ih: "2 ^ (?b - 1) \<le> n div 2" "n div 2 < 2 ^ ?b" by simp_all
    from False have bpos: "0 < ?b" by (subst bitlen.simps) simp
    have bl: "bitlen n = Suc ?b" using "1.prems" by (subst bitlen.simps) simp
    from bpos have "(2::nat) ^ ?b = 2 * 2 ^ (?b - 1)" by (cases ?b) simp_all
    with ih(1) have lo: "2 ^ ?b \<le> n" by linarith
    from ih(2) have "n < 2 * 2 ^ ?b" by linarith
    with lo show ?thesis by (simp add: bl)
  qed
qed

lemma bitlen_pos: "0 < n \<Longrightarrow> 0 < bitlen n"
  by (subst bitlen.simps) simp

lemma expo_bounds:
  assumes "0 < x"
  shows "p2 (expo x) \<le> x" and "x < p2 (expo x + 1)"
proof -
  have "p2 (expo x) \<le> x \<and> x < p2 (expo x + 1)"
  proof (cases "1 \<le> x")
    case True
    let ?n = "nat \<lfloor>x\<rfloor>"
    let ?b = "bitlen ?n"
    from True have n: "0 < ?n" by simp
    from bitlen_bounds [OF n] have b: "2 ^ (?b - 1) \<le> ?n" "?n < 2 ^ ?b" by simp_all
    from bitlen_pos [OF n] have bp: "0 < ?b" .
    have e: "expo x = int (?b - 1)" using True bp by (simp add: expo_def)
    have e1: "expo x + 1 = int ?b" using e bp by simp
    have fl: "rat_of_nat ?n \<le> x" using True by simp
    have fu: "x < rat_of_nat ?n + 1" using True by simp linarith
    have "(2::rat) ^ (?b - 1) \<le> rat_of_nat ?n"
      using b(1) by (metis of_nat_le_iff of_nat_numeral of_nat_power)
    with fl have lo: "p2 (expo x) \<le> x" unfolding e p2_nat by linarith
    from b(2) have "?n + 1 \<le> 2 ^ ?b" by linarith
    then have "rat_of_nat (?n + 1) \<le> 2 ^ ?b"
      by (metis of_nat_le_iff of_nat_numeral of_nat_power)
    with fu have hi: "x < p2 (expo x + 1)" unfolding e1 p2_nat by simp
    from lo hi show ?thesis ..
  next
    case False
    define y where "y = 1 / x"
    define c where "c = \<lceil>y\<rceil>"
    define n where "n = nat (c - 1)"
    define b where "b = bitlen n"
    from False assms have y1: "1 < y" by (simp add: y_def)
    have cy: "y \<le> of_int c" "of_int c - 1 < y" unfolding c_def by linarith+
    from y1 cy(1) have "1 < (of_int c :: rat)" by linarith
    then have c2: "2 \<le> c" by simp
    then have n: "0 < n" and nc: "int n = c - 1" by (simp_all add: n_def)
    from bitlen_bounds [OF n] have bb: "2 ^ (b - 1) \<le> n" "n < 2 ^ b" by (simp_all add: b_def)
    from bitlen_pos [OF n] have bp: "0 < b" by (simp add: b_def)
    have e: "expo x = - int b" using False by (simp add: expo_def b_def n_def c_def y_def)
    have "rat_of_int (int n) = of_int c - 1" unfolding nc by simp
    then have nr: "rat_of_nat n = of_int c - 1" by simp
    have yu: "y \<le> rat_of_nat n + 1" unfolding nr using cy(1) by simp
    have yl: "rat_of_nat n < y" unfolding nr using cy(2) by simp
    from bb(2) have "n + 1 \<le> 2 ^ b" by linarith
    then have "rat_of_nat (n + 1) \<le> 2 ^ b"
      by (metis of_nat_le_iff of_nat_numeral of_nat_power)
    with yu have "y \<le> 2 ^ b" by simp
    then have "1 \<le> 2 ^ b * x" using assms by (simp add: y_def field_simps)
    then have lo: "p2 (expo x) \<le> x"
      unfolding e by (simp add: p2_neg_nat field_simps)
    have "(2::rat) ^ (b - 1) \<le> rat_of_nat n"
      using bb(1) by (metis of_nat_le_iff of_nat_numeral of_nat_power)
    with yl have "2 ^ (b - 1) < y" by linarith
    then have "2 ^ (b - 1) * x < 1" using assms by (simp add: y_def field_simps)
    moreover have "expo x + 1 = - int (b - 1)" using e bp by simp
    ultimately have hi: "x < p2 (expo x + 1)"
      by (simp add: p2_neg_nat field_simps)
    from lo hi show ?thesis ..
  qed
  then show "p2 (expo x) \<le> x" and "x < p2 (expo x + 1)" by simp_all
qed

lemma expo_ge: "0 < x \<Longrightarrow> p2 k \<le> x \<Longrightarrow> k \<le> expo x"
proof -
  assume x: "0 < x" and k: "p2 k \<le> x"
  from k expo_bounds(2) [OF x] have "p2 k < p2 (expo x + 1)" by linarith
  then show ?thesis by (simp add: p2_less_iff)
qed

lemma expo_less: "0 < x \<Longrightarrow> x < p2 k \<Longrightarrow> expo x < k"
proof -
  assume x: "0 < x" and k: "x < p2 k"
  from k expo_bounds(1) [OF x] have "p2 (expo x) < p2 k" by linarith
  then show ?thesis by (simp add: p2_less_iff)
qed

lemma expo_mono: "0 < x \<Longrightarrow> x \<le> y \<Longrightarrow> expo x \<le> expo y"
  using expo_bounds(1) [of x] expo_ge [of y "expo x"] by simp

lemma expo_p2: "expo (p2 k) = k"
proof -
  have "k \<le> expo (p2 k)" by (rule expo_ge) simp_all
  moreover have "expo (p2 k) < k + 1" by (rule expo_less) (simp_all add: p2_less_iff)
  ultimately show ?thesis by simp
qed

lemma rhe_near: "\<bar>of_int (rhe z) - z\<bar> \<le> 1 / 2"
proof -
  have "of_int \<lfloor>z\<rfloor> \<le> z" "z < of_int \<lfloor>z\<rfloor> + 1" by linarith+
  then show ?thesis by (auto simp: rhe_def Let_def)
qed

lemma rhe_int: "rhe (of_int k) = k"
  by (simp add: rhe_def)

lemma rhe_ge: "of_int k \<le> z \<Longrightarrow> k \<le> rhe z"
proof -
  assume "of_int k \<le> z"
  then have "k \<le> \<lfloor>z\<rfloor>" by (simp add: le_floor_iff)
  then show ?thesis by (auto simp: rhe_def Let_def)
qed

lemma rhe_le: "z \<le> of_int k \<Longrightarrow> rhe z \<le> k"
proof (cases "z = of_int k")
  case True
  then show ?thesis by (simp add: rhe_int)
next
  case False
  assume "z \<le> of_int k"
  with False have "z < of_int k" by simp
  then have "\<lfloor>z\<rfloor> < k" by (simp add: floor_less_iff)
  then show ?thesis by (auto simp: rhe_def Let_def)
qed

lemma rhe_mono: "z \<le> w \<Longrightarrow> rhe z \<le> rhe w"
proof -
  assume zw: "z \<le> w"
  have fz: "of_int \<lfloor>z\<rfloor> \<le> z" "z < of_int \<lfloor>z\<rfloor> + 1" by linarith+
  have fw: "of_int \<lfloor>w\<rfloor> \<le> w" "w < of_int \<lfloor>w\<rfloor> + 1" by linarith+
  from zw have ff: "\<lfloor>z\<rfloor> \<le> \<lfloor>w\<rfloor>" by (rule floor_mono)
  show ?thesis
  proof (cases "\<lfloor>z\<rfloor> = \<lfloor>w\<rfloor>")
    case True
    with zw show ?thesis by (auto simp: rhe_def Let_def)
  next
    case False
    with ff have "\<lfloor>z\<rfloor> + 1 \<le> \<lfloor>w\<rfloor>" by simp
    moreover have "rhe z \<le> \<lfloor>z\<rfloor> + 1" by (auto simp: rhe_def Let_def)
    moreover have "\<lfloor>w\<rfloor> \<le> rhe w" by (auto simp: rhe_def Let_def)
    ultimately show ?thesis by linarith
  qed
qed

lemma quantum_ge: "- 1074 \<le> quantum x" "expo x - 52 \<le> quantum x"
  by (simp_all add: quantum_def)

lemma quantum_cases: "quantum x = expo x - 52 \<or> (quantum x = - 1074 \<and> expo x - 52 < - 1074)"
  by (auto simp: quantum_def max_def)

lemma quantum_mono: "0 < x \<Longrightarrow> x \<le> y \<Longrightarrow> quantum x \<le> quantum y"
  using expo_mono [of x y] by (simp add: quantum_def max_def)

lemma scaled_less:
  assumes "0 < x"
  shows "x / p2 (quantum x) < p2 53"
proof -
  have "x < p2 (expo x + 1)" using assms by (rule expo_bounds)
  also have "p2 (expo x + 1) \<le> p2 (quantum x + 53)"
    using quantum_ge(2) [of x] by (intro p2_mono) simp
  also have "\<dots> = p2 (quantum x) * p2 53" by (rule p2_add)
  finally show ?thesis by (simp add: field_simps)
qed

lemma scaled_ge:
  assumes "0 < x" and "quantum x = expo x - 52"
  shows "p2 52 \<le> x / p2 (quantum x)"
proof -
  have "p2 (quantum x + 52) \<le> x"
    using expo_bounds(1) [OF assms(1)] assms(2) by simp
  then have "p2 (quantum x) * p2 52 \<le> x" by (simp add: p2_add)
  then show ?thesis by (simp add: field_simps)
qed

lemma mant_le: "0 < x \<Longrightarrow> rhe (x / p2 (quantum x)) \<le> 2 ^ nat 53"
  using scaled_less [of x] p2_int [of 53] by (intro rhe_le) simp

lemma mant_ge0: "0 \<le> x \<Longrightarrow> 0 \<le> rhe (x / p2 (quantum x))"
  by (rule rhe_ge) simp

lemma mant_ge: "0 < x \<Longrightarrow> quantum x = expo x - 52 \<Longrightarrow> 2 ^ nat 52 \<le> rhe (x / p2 (quantum x))"
  using scaled_ge [of x] p2_int [of 52] by (intro rhe_ge) simp

lemma rnd_mag_0: "rnd_mag 0 = 0"
  by (simp add: rnd_mag_def)

lemma rnd_mag_nonneg: "0 \<le> x \<Longrightarrow> 0 \<le> rnd_mag x"
  using mant_ge0 [of x] by (simp add: rnd_mag_def)

lemma rnd_mag_dist:
  assumes "0 \<le> x"
  shows "\<bar>rnd_mag x - x\<bar> \<le> p2 (quantum x - 1)"
proof (cases "x = 0")
  case True
  then show ?thesis using p2_pos [of "quantum 0 - 1"] by (simp add: rnd_mag_0 less_imp_le)
next
  case False
  let ?q = "p2 (quantum x)"
  let ?z = "x / ?q"
  have q: "0 < ?q" by simp
  have "rnd_mag x - x = (of_int (rhe ?z) - ?z) * ?q"
    using False by (simp add: rnd_mag_def field_simps)
  then have "\<bar>rnd_mag x - x\<bar> = \<bar>of_int (rhe ?z) - ?z\<bar> * ?q"
    by (simp add: abs_mult)
  also have "\<dots> \<le> (1 / 2) * ?q"
    using rhe_near [of ?z] q by (intro mult_right_mono) simp_all
  also have "\<dots> = p2 (quantum x - 1)" by (simp add: p2_diff p2_1)
  finally show ?thesis .
qed

lemma rnd_mag_normal_ge:
  assumes "0 < x" and "quantum x = expo x - 52"
  shows "p2 (expo x) \<le> rnd_mag x"
proof -
  let ?m = "rhe (x / p2 (quantum x))"
  have "p2 (expo x) = p2 (52 + quantum x)" using assms(2) by simp
  also have "\<dots> = p2 52 * p2 (quantum x)" by (rule p2_add)
  also have "\<dots> \<le> of_int ?m * p2 (quantum x)"
  proof (rule mult_right_mono)
    have "(2 ^ nat 52 :: int) \<le> ?m" using assms by (rule mant_ge)
    then have "rat_of_int (2 ^ nat 52) \<le> of_int ?m" by (simp only: of_int_le_iff)
    then show "p2 52 \<le> of_int ?m" using p2_int [of 52] by simp
  qed (simp add: less_imp_le)
  finally show ?thesis using assms(1) by (simp add: rnd_mag_def)
qed

lemma rnd_mag_err:
  assumes "0 \<le> x"
  shows "\<bar>rnd_mag x - x\<bar> \<le> x * p2 (- 53) + p2 (- 1075)"
proof (cases "x = 0")
  case True
  then show ?thesis using p2_pos [of "- 1075"] by (simp add: rnd_mag_0 less_imp_le)
next
  case False
  with assms have pos: "0 < x" by simp
  from quantum_cases [of x] show ?thesis
  proof
    assume q: "quantum x = expo x - 52"
    have "p2 (quantum x - 1) = p2 (expo x + - 53)" unfolding q by simp
    also have "\<dots> = p2 (expo x) * p2 (- 53)" by (rule p2_add)
    also have "\<dots> \<le> x * p2 (- 53)"
      using expo_bounds(1) [OF pos] by (intro mult_right_mono) (simp_all add: less_imp_le)
    finally have "p2 (quantum x - 1) \<le> x * p2 (- 53) + p2 (- 1075)"
      using p2_pos [of "- 1075"] by linarith
    with rnd_mag_dist [OF assms] show ?thesis by linarith
  next
    assume "quantum x = - 1074 \<and> expo x - 52 < - 1074"
    then have "p2 (quantum x - 1) = p2 (- 1075)" by simp
    moreover have "0 \<le> x * p2 (- 53)" using pos by (simp add: less_imp_le)
    ultimately have "p2 (quantum x - 1) \<le> x * p2 (- 53) + p2 (- 1075)" by linarith
    with rnd_mag_dist [OF assms] show ?thesis by linarith
  qed
qed

lemma rnd_mag_grid: "0 \<le> x \<Longrightarrow> on_grid (rnd_mag x)"
proof (cases "x = 0")
  case True
  then have "rnd_mag x = of_int 0 * p2 (- 1074)" by (simp add: rnd_mag_0)
  then show ?thesis unfolding on_grid_def by (intro exI [of _ 0]) simp
next
  case False
  assume "0 \<le> x"
  let ?m = "rhe (x / p2 (quantum x))"
  let ?s = "quantum x + 1074"
  have s: "0 \<le> ?s" using quantum_ge(1) [of x] by simp
  have "p2 (quantum x) = p2 (?s + - 1074)" by simp
  also have "\<dots> = p2 ?s * p2 (- 1074)" by (rule p2_add)
  also have "p2 ?s = of_int (2 ^ nat ?s)" using s by (rule p2_int)
  finally have "rnd_mag x = of_int (?m * 2 ^ nat ?s) * p2 (- 1074)"
    using False by (simp add: rnd_mag_def)
  moreover have "0 \<le> ?m * 2 ^ nat ?s" using mant_ge0 [OF \<open>0 \<le> x\<close>] by simp
  ultimately show ?thesis unfolding on_grid_def by blast
qed

lemma on_grid_add: "on_grid a \<Longrightarrow> on_grid b \<Longrightarrow> on_grid (a + b)"
proof -
  assume "on_grid a" "on_grid b"
  then obtain k l :: int where "0 \<le> k" "a = of_int k * p2 (- 1074)"
    "0 \<le> l" "b = of_int l * p2 (- 1074)" unfolding on_grid_def by blast
  then have "0 \<le> k + l" "a + b = of_int (k + l) * p2 (- 1074)"
    by (simp_all add: distrib_right)
  then show ?thesis unfolding on_grid_def by blast
qed

lemma on_grid_nonneg: "on_grid a \<Longrightarrow> 0 \<le> a"
  unfolding on_grid_def by (auto simp: less_imp_le)

lemma rnd_mag_grid_err:
  assumes "on_grid x"
  shows "\<bar>rnd_mag x - x\<bar> \<le> rnd_mag x * p2 (- 53)"
proof (cases "x = 0")
  case True
  then show ?thesis by (simp add: rnd_mag_0)
next
  case False
  from assms have nn: "0 \<le> x" by (rule on_grid_nonneg)
  with False have pos: "0 < x" by simp
  from quantum_cases [of x] show ?thesis
  proof
    assume q: "quantum x = expo x - 52"
    have "p2 (quantum x - 1) = p2 (expo x + - 53)" unfolding q by simp
    also have "\<dots> = p2 (expo x) * p2 (- 53)" by (rule p2_add)
    also have "\<dots> \<le> rnd_mag x * p2 (- 53)"
      using rnd_mag_normal_ge [OF pos q] by (intro mult_right_mono) (simp_all add: less_imp_le)
    finally show ?thesis using rnd_mag_dist [OF nn] by linarith
  next
    assume "quantum x = - 1074 \<and> expo x - 52 < - 1074"
    then have q: "quantum x = - 1074" ..
    from assms obtain k :: int where k: "x = of_int k * p2 (- 1074)"
      unfolding on_grid_def by blast
    then have z: "x / p2 (- 1074) = of_int k" by simp
    have "rnd_mag x = of_int (rhe (x / p2 (quantum x))) * p2 (quantum x)"
      using False by (simp add: rnd_mag_def)
    also have "\<dots> = of_int k * p2 (- 1074)" by (simp only: q z rhe_int)
    finally have "rnd_mag x = x" using k by simp
    with nn show ?thesis by simp
  qed
qed

lemma rnd_mag_upper: "0 < x \<Longrightarrow> rnd_mag x \<le> p2 (quantum x + 53)"
proof -
  assume pos: "0 < x"
  let ?m = "rhe (x / p2 (quantum x))"
  have "?m \<le> 2 ^ nat 53" using pos by (rule mant_le)
  then have "rat_of_int ?m \<le> of_int (2 ^ nat 53)" by (simp only: of_int_le_iff)
  then have "rat_of_int ?m \<le> p2 53" using p2_int [of 53] by simp
  then have "of_int ?m * p2 (quantum x) \<le> p2 53 * p2 (quantum x)"
    by (intro mult_right_mono) simp_all
  also have "\<dots> = p2 (53 + quantum x)" by (rule p2_add [symmetric])
  finally show ?thesis using pos by (simp add: rnd_mag_def add.commute)
qed

lemma rnd_mag_mono:
  assumes "0 \<le> x" and "x \<le> y"
  shows "rnd_mag x \<le> rnd_mag y"
proof (cases "x = 0")
  case True
  with assms show ?thesis by (simp add: rnd_mag_0 rnd_mag_nonneg)
next
  case False
  with assms have px: "0 < x" and py: "0 < y" by simp_all
  have qq: "quantum x \<le> quantum y" using px assms(2) by (rule quantum_mono)
  show ?thesis
  proof (cases "quantum x = quantum y")
    case True
    have "x / p2 (quantum y) \<le> y / p2 (quantum y)"
      using assms(2) by (simp add: divide_right_mono)
    then have "rhe (x / p2 (quantum y)) \<le> rhe (y / p2 (quantum y))" by (rule rhe_mono)
    then have "rat_of_int (rhe (x / p2 (quantum y))) \<le> of_int (rhe (y / p2 (quantum y)))"
      by (simp only: of_int_le_iff)
    then have "of_int (rhe (x / p2 (quantum y))) * p2 (quantum y)
        \<le> of_int (rhe (y / p2 (quantum y))) * p2 (quantum y)"
      by (intro mult_right_mono) simp_all
    then show ?thesis using px py True by (simp add: rnd_mag_def)
  next
    case False
    with qq have lt: "quantum x < quantum y" by simp
    with quantum_ge(1) [of x] quantum_cases [of y] have qy: "quantum y = expo y - 52" by auto
    have "rnd_mag x \<le> p2 (quantum x + 53)" using px by (rule rnd_mag_upper)
    also have "\<dots> \<le> p2 (expo y)" using lt qy by (intro p2_mono) simp
    also have "\<dots> \<le> rnd_mag y" using py qy by (rule rnd_mag_normal_ge)
    finally show ?thesis .
  qed
qed

lemma rep_mant_lt:
  assumes m: "0 \<le> m" "m < 2 ^ nat 53" and q: "- 1074 \<le> q"
  shows "rnd_mag (of_int m * p2 q) = of_int m * p2 q"
proof (cases "m = 0")
  case True
  then show ?thesis by (simp add: rnd_mag_0)
next
  case False
  let ?y = "rat_of_int m * p2 q"
  from False m have mp: "0 < m" by simp
  then have yp: "0 < ?y" by simp
  have "rat_of_int m < of_int (2 ^ nat 53)" using m(2) by (simp only: of_int_less_iff)
  then have "rat_of_int m < p2 53" using p2_int [of 53] by simp
  then have "?y < p2 53 * p2 q" by (intro mult_strict_right_mono) simp_all
  also have "\<dots> = p2 (q + 53)" by (simp add: p2_add)
  finally have "expo ?y < q + 53" using yp by (intro expo_less)
  with q have le: "quantum ?y \<le> q" by (simp add: quantum_def)
  let ?d = "q - quantum ?y"
  have d: "0 \<le> ?d" using le by simp
  have "p2 q = p2 (?d + quantum ?y)" by simp
  also have "\<dots> = p2 ?d * p2 (quantum ?y)" by (rule p2_add)
  also have "p2 ?d = of_int (2 ^ nat ?d)" using d by (rule p2_int)
  finally have pq: "p2 q = of_int (2 ^ nat ?d) * p2 (quantum ?y)" .
  have "?y / p2 (quantum ?y) = of_int m * of_int (2 ^ nat ?d)"
    by (subst pq) simp
  also have "\<dots> = of_int (m * 2 ^ nat ?d)" by simp
  finally have z: "?y / p2 (quantum ?y) = of_int (m * 2 ^ nat ?d)" .
  from False have "?y \<noteq> 0" by simp
  then have "rnd_mag ?y = of_int (rhe (?y / p2 (quantum ?y))) * p2 (quantum ?y)"
    by (simp only: rnd_mag_def if_False)
  also have "\<dots> = of_int (m * 2 ^ nat ?d) * p2 (quantum ?y)" by (simp only: z rhe_int)
  also have "\<dots> = of_int m * (of_int (2 ^ nat ?d) * p2 (quantum ?y))" by simp
  also have "\<dots> = ?y" by (simp only: pq [symmetric])
  finally show ?thesis .
qed

lemma rep_mant:
  assumes m: "0 \<le> m" "m \<le> 2 ^ nat 53" and q: "- 1074 \<le> q"
  shows "rnd_mag (of_int m * p2 q) = of_int m * p2 q"
proof (cases "m = 2 ^ nat 53")
  case False
  with m have "m < 2 ^ nat 53" by simp
  with m(1) show ?thesis using q by (rule rep_mant_lt)
next
  case True
  have "rat_of_int m * p2 q = p2 53 * p2 q" using True p2_int [of 53] by simp
  also have "\<dots> = p2 (52 + (q + 1))" by (simp flip: p2_add)
  also have "\<dots> = p2 52 * p2 (q + 1)" by (rule p2_add)
  also have "\<dots> = of_int (2 ^ nat 52) * p2 (q + 1)" using p2_int [of 52] by simp
  finally have e: "rat_of_int m * p2 q = of_int (2 ^ nat 52) * p2 (q + 1)" .
  have "rnd_mag (rat_of_int (2 ^ nat 52) * p2 (q + 1)) = of_int (2 ^ nat 52) * p2 (q + 1)"
    using q by (intro rep_mant_lt) simp_all
  then show ?thesis by (simp only: e)
qed

lemma rnd_mag_idem: "0 \<le> x \<Longrightarrow> rnd_mag (rnd_mag x) = rnd_mag x"
proof (cases "x = 0")
  case True
  then show ?thesis by (simp add: rnd_mag_0)
next
  case False
  assume "0 \<le> x"
  with False have pos: "0 < x" by simp
  have "rnd_mag (of_int (rhe (x / p2 (quantum x))) * p2 (quantum x))
      = of_int (rhe (x / p2 (quantum x))) * p2 (quantum x)"
    using mant_ge0 [of x] mant_le [OF pos] quantum_ge(1) [of x] pos by (intro rep_mant) simp_all
  then show ?thesis using pos by (simp add: rnd_mag_def)
qed

lemma representable_rnd_mag: "0 \<le> x \<Longrightarrow> representable (rnd_mag x)"
  by (simp add: representable_def rnd_mag_idem rnd_mag_nonneg)

lemma representable_grid: "representable y \<Longrightarrow> on_grid y"
  using rnd_mag_grid [of y] by (simp add: representable_def)

lemma representable_0: "representable 0"
  by (simp add: representable_def rnd_mag_0)

lemma representable_1: "representable 1"
proof -
  have "rnd_mag (of_int 1 * p2 0) = of_int 1 * p2 0" by (rule rep_mant) simp_all
  then show ?thesis by (simp add: representable_def p2_0)
qed

lemma representable_100: "representable 100"
proof -
  have "rnd_mag (of_int 100 * p2 0) = of_int 100 * p2 0" by (rule rep_mant) simp_all
  then show ?thesis by (simp add: representable_def p2_0)
qed

lemma representable_min: "representable (p2 (- 1074))"
proof -
  have "rnd_mag (of_int 1 * p2 (- 1074)) = of_int 1 * p2 (- 1074)" by (rule rep_mant) simp_all
  then show ?thesis by (simp add: representable_def)
qed

lemma rnd_mag_ge_rep: "representable s \<Longrightarrow> s \<le> x \<Longrightarrow> s \<le> rnd_mag x"
  using rnd_mag_mono [of s x] by (simp add: representable_def)

lemma rnd_mag_le_rep: "representable s \<Longrightarrow> 0 \<le> x \<Longrightarrow> x \<le> s \<Longrightarrow> rnd_mag x \<le> s"
  using rnd_mag_mono [of x s] by (simp add: representable_def)

lemma grid_pos_ge: "on_grid x \<Longrightarrow> 0 < x \<Longrightarrow> p2 (- 1074) \<le> x"
proof -
  assume "on_grid x" "0 < x"
  then obtain k :: int where k: "0 \<le> k" "x = of_int k * p2 (- 1074)"
    unfolding on_grid_def by blast
  with \<open>0 < x\<close> have "k \<noteq> 0" by auto
  with k(1) have "1 \<le> k" by simp
  then have "(1::rat) \<le> of_int k" by simp
  then have "1 * p2 (- 1074) \<le> of_int k * p2 (- 1074)" by (intro mult_right_mono) simp_all
  with k(2) show ?thesis by simp
qed

lemma rnd_mag_grid_pos: "on_grid x \<Longrightarrow> 0 < x \<Longrightarrow> 0 < rnd_mag x"
proof -
  assume "on_grid x" "0 < x"
  then have "p2 (- 1074) \<le> x" by (rule grid_pos_ge)
  with representable_min have "p2 (- 1074) \<le> rnd_mag x" by (rule rnd_mag_ge_rep)
  with p2_pos [of "- 1074"] show ?thesis by linarith
qed

lemma expo_0: "expo 0 = 0"
  by (simp add: expo_def bitlen.simps)

lemma expo_small: "0 \<le> y \<Longrightarrow> y < p2 1024 \<Longrightarrow> expo y < 1024"
  by (cases "y = 0") (simp_all add: expo_0 expo_less)

lemma expo_large: "p2 1024 \<le> y \<Longrightarrow> 1024 \<le> expo y"
proof -
  assume a: "p2 1024 \<le> y"
  with p2_pos [of 1024] have "0 < y" by linarith
  then show ?thesis using a by (rule expo_ge)
qed

section \<open>Pie percentages\<close>

text \<open>
  The comparator of the sort sees two values as they are ordered: the difference of two
  doubles rounds to a number of the same sign.  So the rows are sorted, and rows of equal
  value keep their order.
\<close>

lemma to_double_nonneg:
  "0 \<le> x \<Longrightarrow> to_double x = (if 1024 \<le> expo (rnd_mag x) then PInf else Fin (rnd_mag x))"
  by (simp add: to_double_def Let_def)

lemma to_double_value: "0 \<le> x \<Longrightarrow> is_value (to_double x)"
  using representable_rnd_mag [of x] by (simp add: to_double_nonneg)

lemma to_double_fin: "0 \<le> x \<Longrightarrow> to_double x = Fin y \<Longrightarrow> y = rnd_mag x"
  by (simp add: to_double_nonneg split: if_splits)

lemma to_double_small: "0 \<le> x \<Longrightarrow> rnd_mag x < p2 1024 \<Longrightarrow> to_double x = Fin (rnd_mag x)"
  using expo_small [of "rnd_mag x"] rnd_mag_nonneg [of x] by (simp add: to_double_nonneg)

lemma digits_value_nonneg: "0 \<le> rat_of_nat (digits_value a) + rat_of_nat (digits_value b) / 10 ^ n"
  by simp

lemma parseFloat_value: "is_value (parseFloat t)"
  unfolding parseFloat_def Let_def by (rule to_double_value) simp

lemma is_value_cases:
  assumes "is_value d"
  obtains a where "d = Fin a" "representable a" | "d = PInf"
  using assms by (cases d) auto

lemma representable_nonneg: "representable a \<Longrightarrow> 0 \<le> a"
  by (simp add: representable_def)

lemma dadd_value: "is_value a \<Longrightarrow> is_value b \<Longrightarrow> is_value (dadd a b)"
  by (erule is_value_cases; erule is_value_cases)
     (simp_all add: to_double_value representable_nonneg)

lemma dadd_fin:
  assumes "is_value a" "is_value b" "dadd a b = Fin s"
  shows "\<exists>x y. a = Fin x \<and> b = Fin y \<and> representable x \<and> representable y
            \<and> s = rnd_mag (x + y)"
  using assms
  by (elim is_value_cases) (auto simp: representable_nonneg dest!: to_double_fin [rotated])

lemma on_grid_diff:
  assumes "on_grid a" "on_grid b" "a < b"
  shows "on_grid (b - a)"
proof -
  from assms obtain k l :: int where k: "a = of_int k * p2 (- 1074)"
    and l: "b = of_int l * p2 (- 1074)" unfolding on_grid_def by blast
  have "b - a = of_int (l - k) * p2 (- 1074)" unfolding k l by (simp add: left_diff_distrib)
  moreover have "0 \<le> l - k"
  proof (rule ccontr)
    assume "\<not> 0 \<le> l - k"
    then have "l \<le> k" by simp
    then have "rat_of_int l \<le> of_int k" by simp
    then have "of_int l * p2 (- 1074) \<le> of_int k * p2 (- 1074)"
      by (intro mult_right_mono) simp_all
    with assms(3) k l show False by simp
  qed
  ultimately show ?thesis unfolding on_grid_def by blast
qed

lemma is_pos_to_double_pos: "on_grid z \<Longrightarrow> 0 < z \<Longrightarrow> is_pos (to_double z)"
  using rnd_mag_grid_pos [of z] by (simp add: to_double_nonneg)

lemma is_pos_to_double_neg: "z \<le> 0 \<Longrightarrow> \<not> is_pos (to_double z)"
proof (cases "z = 0")
  case True
  then show ?thesis by (simp add: to_double_def rnd_mag_0 expo_0)
next
  case False
  assume "z \<le> 0"
  with False have "z < 0" by simp
  then show ?thesis using rnd_mag_nonneg [of "- z"] by (simp add: to_double_def Let_def)
qed

lemma comparator:
  assumes "is_value x" "is_value y"
  shows "is_pos (dsub y x) = (\<not> dle y x)"
proof -
  from assms(1) show ?thesis
  proof (cases rule: is_value_cases)
    case (1 a)
    from assms(2) show ?thesis
    proof (cases rule: is_value_cases)
      case b: (1 b)
      have d: "dsub y x = to_double (b - a)" using 1 b by (simp add: dsub_def)
      show ?thesis
      proof (cases "a < b")
        case True
        have "on_grid (b - a)"
          using representable_grid [OF 1(2)] representable_grid [OF b(2)] True
          by (rule on_grid_diff)
        with True have "is_pos (to_double (b - a))" by (intro is_pos_to_double_pos) simp_all
        with True 1 b d show ?thesis by simp
      next
        case False
        then have "\<not> is_pos (to_double (b - a))" by (intro is_pos_to_double_neg) simp
        with False 1 b d show ?thesis by simp
      qed
    next
      case 2
      with 1 show ?thesis by (simp add: dsub_def)
    qed
  next
    case 2
    from assms(2) show ?thesis
      by (cases rule: is_value_cases) (simp_all add: 2 dsub_def)
  qed
qed

lemma dle_total: "is_value a \<Longrightarrow> is_value b \<Longrightarrow> dle a b \<or> dle b a"
  by (elim is_value_cases) auto

lemma dle_trans: "dle a b \<Longrightarrow> dle b c \<Longrightarrow> dle a c"
  by (cases a; cases b; cases c) simp_all

lemma dle_antisym: "dle a b \<Longrightarrow> dle b a \<Longrightarrow> a = b"
  by (cases a; cases b) simp_all

lemma dle_refl: "is_value a \<Longrightarrow> dle a a"
  by (elim is_value_cases) auto

lemma mset_insert_desc: "mset (insert_desc x ys) = add_mset x (mset ys)"
  by (induction ys) auto

lemma mset_sort_desc: "mset (sort_desc xs) = mset xs"
  by (induction xs) (auto simp: sort_desc_def mset_insert_desc)

lemma set_insert_desc: "set (insert_desc x ys) = insert x (set ys)"
  by (induction ys) auto

lemma set_sort_desc: "set (sort_desc xs) = set xs"
  using mset_sort_desc [of xs] by (metis set_mset_mset)

lemma sorted_insert_desc:
  assumes "all_values (x # ys)"
    and "sorted_wrt (\<lambda>a b. dle (seg_value b) (seg_value a)) ys"
  shows "sorted_wrt (\<lambda>a b. dle (seg_value b) (seg_value a)) (insert_desc x ys)"
  using assms
proof (induction ys)
  case Nil
  show ?case by simp
next
  case (Cons y ys)
  from Cons.prems(1) have vx: "is_value (seg_value x)" and vy: "is_value (seg_value y)"
    and vs: "\<forall>r\<in>set ys. is_value (seg_value r)" by (simp_all add: all_values_def)
  from Cons.prems(2) have sy: "\<forall>r\<in>set ys. dle (seg_value r) (seg_value y)"
    and ss: "sorted_wrt (\<lambda>a b. dle (seg_value b) (seg_value a)) ys" by simp_all
  show ?case
  proof (cases "is_pos (dsub (seg_value y) (seg_value x))")
    case True
    then have "\<not> dle (seg_value y) (seg_value x)" using comparator [OF vx vy] by simp
    with dle_total [OF vx vy] have xy: "dle (seg_value x) (seg_value y)" by blast
    have "all_values (x # ys)" using vx vs by (simp add: all_values_def)
    then have "sorted_wrt (\<lambda>a b. dle (seg_value b) (seg_value a)) (insert_desc x ys)"
      using ss by (rule Cons.IH)
    with True xy sy show ?thesis by (simp add: set_insert_desc)
  next
    case False
    then have yx: "dle (seg_value y) (seg_value x)" using comparator [OF vx vy] by simp
    with sy have "\<forall>r\<in>set ys. dle (seg_value r) (seg_value x)" by (blast intro: dle_trans)
    with False yx Cons.prems(2) show ?thesis by simp
  qed
qed

lemma all_values_sort: "all_values xs \<Longrightarrow> all_values (sort_desc xs)"
  by (simp add: all_values_def set_sort_desc)

lemma sorted_sort_desc:
  "all_values xs \<Longrightarrow> sorted_wrt (\<lambda>a b. dle (seg_value b) (seg_value a)) (sort_desc xs)"
proof (induction xs)
  case Nil
  show ?case by (simp add: sort_desc_def)
next
  case (Cons x xs)
  from Cons.prems have vs: "all_values xs" by (simp add: all_values_def)
  have "all_values (x # sort_desc xs)"
    using Cons.prems by (simp add: all_values_def set_sort_desc)
  then have "sorted_wrt (\<lambda>a b. dle (seg_value b) (seg_value a)) (insert_desc x (sort_desc xs))"
    using Cons.IH [OF vs] by (rule sorted_insert_desc)
  then show ?case by (simp add: sort_desc_def)
qed

lemma filter_insert_desc:
  assumes "all_values (x # ys)"
    and "sorted_wrt (\<lambda>a b. dle (seg_value b) (seg_value a)) ys"
  shows "filter (\<lambda>r. seg_value r = v) (insert_desc x ys)
     = (if seg_value x = v then x # filter (\<lambda>r. seg_value r = v) ys
        else filter (\<lambda>r. seg_value r = v) ys)"
  using assms
proof (induction ys)
  case Nil
  show ?case by simp
next
  case (Cons y ys)
  from Cons.prems(1) have vx: "is_value (seg_value x)" and vy: "is_value (seg_value y)"
    and vs: "all_values (x # ys)" by (simp_all add: all_values_def)
  from Cons.prems(2) have ss: "sorted_wrt (\<lambda>a b. dle (seg_value b) (seg_value a)) ys" by simp
  show ?case
  proof (cases "is_pos (dsub (seg_value y) (seg_value x))")
    case True
    then have "\<not> dle (seg_value y) (seg_value x)" using comparator [OF vx vy] by simp
    with dle_refl [OF vx] have ne: "\<not> (seg_value x = v \<and> seg_value y = v)" by auto
    from True Cons.IH [OF vs ss] ne show ?thesis by auto
  next
    case False
    then show ?thesis by simp
  qed
qed

lemma sort_desc_stable:
  "all_values xs \<Longrightarrow>
     filter (\<lambda>r. seg_value r = v) (sort_desc xs) = filter (\<lambda>r. seg_value r = v) xs"
proof (induction xs)
  case Nil
  show ?case by (simp add: sort_desc_def)
next
  case (Cons x xs)
  from Cons.prems have vs: "all_values xs" by (simp add: all_values_def)
  have av: "all_values (x # sort_desc xs)"
    using Cons.prems by (simp add: all_values_def set_sort_desc)
  have "sort_desc (x # xs) = insert_desc x (sort_desc xs)" by (simp add: sort_desc_def)
  with Cons.IH [OF vs] filter_insert_desc [OF av sorted_sort_desc [OF vs]] show ?case by simp
qed

lemma pie_line_inv:
  assumes "all_values (fst st)" "snd st = foldl dadd (Fin 0) (map seg_value (fst st))"
  shows "all_values (fst (pie_line st l))
       \<and> snd (pie_line st l) = foldl dadd (Fin 0) (map seg_value (fst (pie_line st l)))"
  using assms
  by (simp add: pie_line_def Let_def all_values_def parseFloat_value split: option.splits)

lemma pie_fold_inv:
  "all_values (fst st) \<Longrightarrow> snd st = foldl dadd (Fin 0) (map seg_value (fst st)) \<Longrightarrow>
   all_values (fst (foldl pie_line st ls))
   \<and> snd (foldl pie_line st ls)
       = foldl dadd (Fin 0) (map seg_value (fst (foldl pie_line st ls)))"
proof (induction ls arbitrary: st)
  case Nil
  then show ?case by simp
next
  case (Cons l ls)
  from pie_line_inv [OF Cons.prems, of l] show ?case by (simp add: Cons.IH)
qed

lemma pie_model_inv:
  "all_values (fst (pie_model source))
   \<and> snd (pie_model source) = foldl dadd (Fin 0) (map seg_value (fst (pie_model source)))"
  unfolding pie_model_def by (rule pie_fold_inv) (simp_all add: all_values_def)

text \<open>
  The total is the sum of the values taken from left to right, each step rounded.  While
  it stays finite every partial sum is at most the total, no value exceeds it, and it is
  off the exact sum by at most \<open>2^-53\<close> of itself for each value.  A percentage is the
  quotient, rounded, times 100, rounded: it lies between 0 and 100 and next to the exact
  percentage.
\<close>

lemma fold_sum:
  assumes "is_value s" "\<forall>v\<in>set vs. is_value v" "foldl dadd s vs = Fin t"
  shows "\<exists>s0 ws. s = Fin s0 \<and> vs = map Fin ws \<and> representable t \<and> s0 \<le> t
           \<and> (\<forall>w\<in>set ws. representable w \<and> w \<le> t)
           \<and> \<bar>t - (s0 + sum_list ws)\<bar> \<le> of_nat (length ws) * (t * p2 (- 53))"
  using assms
proof (induction vs arbitrary: s)
  case Nil
  then have "s = Fin t" "representable t" by simp_all
  then have "s = Fin t \<and> [] = map Fin [] \<and> representable t \<and> t \<le> t
           \<and> (\<forall>w\<in>set []. representable w \<and> w \<le> t)
           \<and> \<bar>t - (t + sum_list [])\<bar> \<le> of_nat (length ([] :: rat list)) * (t * p2 (- 53))"
    by simp
  then show ?case by blast
next
  case (Cons v vs)
  from Cons.prems have vv: "is_value v" and vvs: "\<forall>v\<in>set vs. is_value v"
    and f: "foldl dadd (dadd s v) vs = Fin t" by simp_all
  have vd: "is_value (dadd s v)" using Cons.prems(1) vv by (rule dadd_value)
  from Cons.IH [OF vd vvs f] obtain s1 ws where s1: "dadd s v = Fin s1"
    and ws: "vs = map Fin ws" and rt: "representable t" and s1t: "s1 \<le> t"
    and wst: "\<forall>w\<in>set ws. representable w \<and> w \<le> t"
    and err: "\<bar>t - (s1 + sum_list ws)\<bar> \<le> of_nat (length ws) * (t * p2 (- 53))"
    by blast
  from dadd_fin [OF Cons.prems(1) vv s1] obtain s0 w where s: "s = Fin s0" and v: "v = Fin w"
    and r0: "representable s0" and rw: "representable w" and e1: "s1 = rnd_mag (s0 + w)"
    by blast
  from r0 rw have n0: "0 \<le> s0" and nw: "0 \<le> w" by (simp_all add: representable_nonneg)
  have "s0 \<le> s1" unfolding e1 using r0 nw by (intro rnd_mag_ge_rep) simp_all
  with s1t have s0t: "s0 \<le> t" by simp
  have "w \<le> s1" unfolding e1 using rw n0 by (intro rnd_mag_ge_rep) simp_all
  with s1t have wt: "w \<le> t" by simp
  have "on_grid (s0 + w)"
    using representable_grid [OF r0] representable_grid [OF rw] by (rule on_grid_add)
  then have "\<bar>s1 - (s0 + w)\<bar> \<le> s1 * p2 (- 53)" unfolding e1 by (rule rnd_mag_grid_err)
  also have "\<dots> \<le> t * p2 (- 53)" using s1t by (intro mult_right_mono) simp_all
  finally have step: "\<bar>s1 - (s0 + w)\<bar> \<le> t * p2 (- 53)" .
  have "\<bar>t - (s0 + sum_list (w # ws))\<bar> \<le> \<bar>t - (s1 + sum_list ws)\<bar> + \<bar>s1 - (s0 + w)\<bar>"
    by simp
  also have "\<dots> \<le> of_nat (length ws) * (t * p2 (- 53)) + t * p2 (- 53)"
    using err step by (rule add_mono)
  also have "\<dots> = of_nat (length (w # ws)) * (t * p2 (- 53))"
    by (simp add: distrib_right)
  finally have e: "\<bar>t - (s0 + sum_list (w # ws))\<bar> \<le> of_nat (length (w # ws)) * (t * p2 (- 53))" .
  have "s = Fin s0 \<and> v # vs = map Fin (w # ws) \<and> representable t \<and> s0 \<le> t
           \<and> (\<forall>x\<in>set (w # ws). representable x \<and> x \<le> t)
           \<and> \<bar>t - (s0 + sum_list (w # ws))\<bar> \<le> of_nat (length (w # ws)) * (t * p2 (- 53))"
    using s v ws rt s0t wst rw wt e by simp
  then show ?case by (intro exI)
qed

lemma p2_1024_large: "100 < p2 1024"
proof -
  have "(100::rat) < of_int (2 ^ nat 7)" by simp
  also have "\<dots> = p2 7" by (rule p2_int [symmetric]) simp
  also have "\<dots> \<le> p2 1024" by (rule p2_mono) simp
  finally show ?thesis .
qed

lemma percent_bound:
  assumes "representable v" "v \<le> t" "0 < t"
  shows "\<exists>p. dmul (ddiv (Fin v) (Fin t)) (Fin 100) = Fin p \<and> 0 \<le> p \<and> p \<le> 100
           \<and> \<bar>p - 100 * (v / t)\<bar> \<le> 200 * p2 (- 53) + 101 * p2 (- 1075)"
proof -
  define u where "u = p2 (- 53)"
  define h where "h = p2 (- 1075)"
  define r where "r = v / t"
  define q where "q = rnd_mag r"
  define p where "p = rnd_mag (q * 100)"
  have u0: "0 \<le> u" and h0: "0 \<le> h" by (simp_all add: u_def h_def)
  from assms have nv: "0 \<le> v" by (simp add: representable_nonneg)
  have r0: "0 \<le> r" using nv assms(3) by (simp add: r_def)
  have r1: "r \<le> 1" using assms(2,3) by (simp add: r_def)
  have q0: "0 \<le> q" unfolding q_def using r0 by (rule rnd_mag_nonneg)
  have q1: "q \<le> 1" unfolding q_def using representable_1 r0 r1 by (rule rnd_mag_le_rep)
  have "rnd_mag r < p2 1024" using q1 p2_1024_large by (simp add: q_def)
  with r0 have "to_double r = Fin q" unfolding q_def by (rule to_double_small)
  then have dq: "ddiv (Fin v) (Fin t) = Fin q" using assms(3) by (simp add: r_def)
  have m0: "0 \<le> q * 100" using q0 by simp
  have m1: "q * 100 \<le> 100" using q1 by simp
  have p0: "0 \<le> p" unfolding p_def using m0 by (rule rnd_mag_nonneg)
  have p1: "p \<le> 100" unfolding p_def using representable_100 m0 m1 by (rule rnd_mag_le_rep)
  have "rnd_mag (q * 100) < p2 1024" using p1 p2_1024_large by (simp add: p_def)
  with m0 have "to_double (q * 100) = Fin p" unfolding p_def by (rule to_double_small)
  with dq have dp: "dmul (ddiv (Fin v) (Fin t)) (Fin 100) = Fin p" by simp
  have "\<bar>q - r\<bar> \<le> r * u + h" unfolding q_def u_def h_def using r0 by (rule rnd_mag_err)
  moreover have "r * u \<le> 1 * u" using r1 u0 by (rule mult_right_mono)
  ultimately have eq: "\<bar>q - r\<bar> \<le> u + h" by simp
  have "\<bar>p - q * 100\<bar> \<le> q * 100 * u + h"
    unfolding p_def u_def h_def using m0 by (rule rnd_mag_err)
  moreover have "q * 100 * u \<le> 100 * u" using m1 u0 by (rule mult_right_mono)
  ultimately have ep: "\<bar>p - q * 100\<bar> \<le> 100 * u + h" by simp
  from eq ep have "\<bar>p - 100 * r\<bar> \<le> 200 * u + 101 * h" by linarith
  with dp p0 p1 show ?thesis unfolding u_def h_def r_def by blast
qed

lemma round_tenths_near: "\<bar>of_int (round_tenths x) - x * 10\<bar> \<le> (1 / 2 :: rat)"
proof -
  have "of_int \<lfloor>x * 10 + 1 / 2\<rfloor> \<le> x * 10 + 1 / 2" by (rule of_int_floor_le)
  moreover have "x * 10 + 1 / 2 < of_int \<lfloor>x * 10 + 1 / 2\<rfloor> + 1" by linarith
  ultimately show ?thesis unfolding round_tenths_def by linarith
qed

lemma round_tenths_nonneg: "0 \<le> x \<Longrightarrow> 0 \<le> round_tenths x"
  by (simp add: round_tenths_def)

lemma ulp_small: "p2 (- 53) \<le> 1 / 10 ^ 15" and tiny_small: "p2 (- 1075) \<le> p2 (- 53)"
proof -
  have "p2 (- 53) = 1 / 2 ^ 53" using p2_neg_nat [of 53] by simp
  also have "\<dots> \<le> 1 / 10 ^ 15" by simp
  finally show "p2 (- 53) \<le> 1 / 10 ^ 15" .
  show "p2 (- 1075) \<le> p2 (- 53)" by (rule p2_mono) simp
qed

lemma percentage_text:
  assumes "representable v" "v \<le> t" "0 < t"
  shows "percentage show_num (Fin t) (Fin v)
           = tenths_text (percentage_tenths (Fin t) (Fin v))"
    and "\<bar>rat_of_nat (percentage_tenths (Fin t) (Fin v)) - 1000 * (v / t)\<bar>
           \<le> 1 / 2 + 3010 * p2 (- 53)"
proof -
  from percent_bound [OF assms] obtain p where
    dp: "dmul (ddiv (Fin v) (Fin t)) (Fin 100) = Fin p" and p0: "0 \<le> p" and p1: "p \<le> 100"
    and e: "\<bar>p - 100 * (v / t)\<bar> \<le> 200 * p2 (- 53) + 101 * p2 (- 1075)" by blast
  have big: "\<not> 10 ^ 21 \<le> \<bar>p\<bar>" using p0 p1 by simp
  have pt: "percentage_tenths (Fin t) (Fin v) = nat (round_tenths p)"
    unfolding percentage_tenths_def dp by simp
  have "percentage show_num (Fin t) (Fin v) = toFixed1 show_num (Fin p)"
    unfolding percentage_def dp using assms(3) by simp
  also have "\<dots> = tenths_text (nat (round_tenths p))"
    using p0 big by (simp add: toFixed1_def)
  finally show "percentage show_num (Fin t) (Fin v)
      = tenths_text (percentage_tenths (Fin t) (Fin v))"
    by (simp only: pt)
  define n where "n = rat_of_int (round_tenths p)"
  define r where "r = v / t"
  have n: "rat_of_nat (percentage_tenths (Fin t) (Fin v)) = n"
    unfolding pt n_def using round_tenths_nonneg [OF p0] by simp
  have a: "\<bar>n - p * 10\<bar> \<le> 1 / 2" unfolding n_def by (rule round_tenths_near)
  from e tiny_small have b: "\<bar>p - 100 * r\<bar> \<le> 301 * p2 (- 53)" unfolding r_def by linarith
  from a b have "\<bar>n - 1000 * r\<bar> \<le> 1 / 2 + 3010 * p2 (- 53)" by linarith
  then show "\<bar>rat_of_nat (percentage_tenths (Fin t) (Fin v)) - 1000 * (v / t)\<bar>
           \<le> 1 / 2 + 3010 * p2 (- 53)"
    unfolding n r_def .
qed

lemma tenths_sum:
  assumes "\<forall>w\<in>set ws. representable w \<and> w \<le> t" and "0 < t"
  shows "\<bar>(\<Sum>w\<leftarrow>ws. rat_of_nat (percentage_tenths (Fin t) (Fin w)))
            - 1000 * (\<Sum>w\<leftarrow>ws. w / t)\<bar>
           \<le> of_nat (length ws) * (1 / 2 + 3010 * p2 (- 53))"
  using assms(1)
proof (induction ws)
  case Nil
  show ?case by simp
next
  case (Cons w ws)
  define c where "c = 1 / 2 + 3010 * p2 (- 53)"
  define n where "n = rat_of_nat (percentage_tenths (Fin t) (Fin w))"
  define r where "r = w / t"
  define S where "S = (\<Sum>w\<leftarrow>ws. rat_of_nat (percentage_tenths (Fin t) (Fin w)))"
  define R where "R = (\<Sum>w\<leftarrow>ws. w / t)"
  define N where "N = rat_of_nat (length ws)"
  from Cons.prems have w: "representable w" "w \<le> t"
    and rs: "\<forall>w\<in>set ws. representable w \<and> w \<le> t" by simp_all
  have a: "\<bar>n - 1000 * r\<bar> \<le> c"
    unfolding n_def r_def c_def using w assms(2) by (rule percentage_text(2))
  have b: "\<bar>S - 1000 * R\<bar> \<le> N * c"
    unfolding S_def R_def N_def c_def using rs by (rule Cons.IH)
  have "(n + S) - 1000 * (r + R) = (n - 1000 * r) + (S - 1000 * R)"
    by (simp add: distrib_left)
  then have "\<bar>(n + S) - 1000 * (r + R)\<bar> \<le> \<bar>n - 1000 * r\<bar> + \<bar>S - 1000 * R\<bar>"
    by (simp only: abs_triangle_ineq)
  also have "\<dots> \<le> c + N * c" using a b by (rule add_mono)
  also have "\<dots> = (N + 1) * c" by (simp add: distrib_right)
  finally show ?case
    unfolding n_def S_def r_def R_def N_def c_def by (simp add: add.commute)
qed

lemma sum_shares: "0 < t \<Longrightarrow> (\<Sum>w\<leftarrow>ws. w / t) = sum_list ws / (t::rat)"
  by (induction ws) (simp_all add: add_divide_distrib)

lemma tenths_total:
  assumes ws: "\<forall>w\<in>set ws. representable w \<and> w \<le> t" and t: "0 < t"
    and err: "\<bar>t - sum_list ws\<bar> \<le> of_nat (length ws) * (t * p2 (- 53))"
  shows "1000 * \<bar>(\<Sum>w\<leftarrow>ws. rat_of_nat (percentage_tenths (Fin t) (Fin w))) - 1000\<bar>
           \<le> 501 * of_nat (length ws)"
proof -
  define S where "S = (\<Sum>w\<leftarrow>ws. rat_of_nat (percentage_tenths (Fin t) (Fin w)))"
  define N where "N = rat_of_nat (length ws)"
  define u where "u = p2 (- 53)"
  define R where "R = sum_list ws / t"
  have N0: "0 \<le> N" by (simp add: N_def)
  have a: "\<bar>S - 1000 * R\<bar> \<le> N * (1 / 2 + 3010 * u)"
    using tenths_sum [OF ws t] unfolding S_def N_def u_def R_def sum_shares [OF t] .
  have "\<bar>t - sum_list ws\<bar> / t \<le> (N * (t * u)) / t"
    using err t unfolding N_def u_def by (intro divide_right_mono) simp_all
  moreover have "(N * (t * u)) / t = N * u" using t by simp
  moreover have "\<bar>t - sum_list ws\<bar> / t = \<bar>1 - R\<bar>"
  proof -
    have "1 - R = (t - sum_list ws) / t" using t by (simp add: R_def field_simps)
    then show ?thesis using t by (simp add: abs_divide)
  qed
  ultimately have b: "\<bar>1 - R\<bar> \<le> N * u" by simp
  have "N * (3010 * u) + 1000 * (N * u) = N * (4010 * u)" by (simp add: algebra_simps)
  moreover from a have "\<bar>S - 1000 * R\<bar> \<le> N * (1 / 2) + N * (3010 * u)"
    by (simp add: distrib_left)
  ultimately have "\<bar>S - 1000\<bar> \<le> N * (1 / 2) + N * (4010 * u)" using b by linarith
  moreover have "N * (4010 * u) \<le> N * (1 / 1000)"
    using ulp_small N0 unfolding u_def by (intro mult_left_mono) simp_all
  ultimately have "\<bar>S - 1000\<bar> \<le> N * (1 / 2) + N * (1 / 1000)" by linarith
  then have "1000 * \<bar>S - 1000\<bar> \<le> 501 * N" by (simp add: algebra_simps)
  then show ?thesis unfolding S_def N_def .
qed

lemma fold_value:
  "is_value s \<Longrightarrow> \<forall>v\<in>set vs. is_value v \<Longrightarrow> is_value (foldl dadd s vs)"
  by (induction vs arbitrary: s) (simp_all add: dadd_value)

lemma of_int_tenths_sum:
  "rat_of_int (\<Sum>r\<leftarrow>xs. int (f r)) = (\<Sum>r\<leftarrow>xs. rat_of_nat (f r))"
  by (induction xs) simp_all

lemma finite_total:
  assumes av: "all_values data"
    and tot: "foldl dadd (Fin 0) (map seg_value data) = Fin t"
    and perm: "mset rows = mset data"
  shows "representable t"
    and "\<forall>r\<in>set rows. seg_value r = Fin (fin_value (seg_value r))
            \<and> representable (fin_value (seg_value r)) \<and> fin_value (seg_value r) \<le> t"
    and "\<bar>t - sum_list (map (\<lambda>r. fin_value (seg_value r)) rows)\<bar>
           \<le> of_nat (length rows) * (t * p2 (- 53))"
proof -
  have v0: "is_value (Fin 0)" by (simp add: representable_0)
  have vs: "\<forall>v\<in>set (map seg_value data). is_value v" using av by (simp add: all_values_def)
  from fold_sum [OF v0 vs tot] obtain s0 ws where s0: "Fin 0 = Fin s0"
    and ws: "map seg_value data = map Fin ws" and rt: "representable t"
    and wst: "\<forall>w\<in>set ws. representable w \<and> w \<le> t"
    and err: "\<bar>t - (s0 + sum_list ws)\<bar> \<le> of_nat (length ws) * (t * p2 (- 53))"
    by blast
  from s0 have z: "s0 = 0" by simp
  have "map fin_value (map seg_value data) = map fin_value (map Fin ws)" by (simp only: ws)
  then have wd: "ws = map (\<lambda>r. fin_value (seg_value r)) data" by (simp add: comp_def)
  have each: "seg_value r = Fin (fin_value (seg_value r))
       \<and> representable (fin_value (seg_value r)) \<and> fin_value (seg_value r) \<le> t"
    if "r \<in> set data" for r
  proof -
    from that have "seg_value r \<in> set (map seg_value data)" by simp
    then have "seg_value r \<in> set (map Fin ws)" by (simp only: ws)
    then obtain w where w: "w \<in> set ws" "seg_value r = Fin w" by auto
    with wst show ?thesis by simp
  qed
  from perm have sets: "set rows = set data" by (metis set_mset_mset)
  from perm have len: "length rows = length data" by (metis size_mset)
  have "mset (map (\<lambda>r. fin_value (seg_value r)) rows)
      = mset (map (\<lambda>r. fin_value (seg_value r)) data)"
    using perm by (metis mset_map)
  then have sums: "sum_list (map (\<lambda>r. fin_value (seg_value r)) rows) = sum_list ws"
    unfolding wd by (metis sum_mset_sum_list)
  show "representable t" by (rule rt)
  show "\<forall>r\<in>set rows. seg_value r = Fin (fin_value (seg_value r))
            \<and> representable (fin_value (seg_value r)) \<and> fin_value (seg_value r) \<le> t"
    using each sets by blast
  have "length ws = length rows" using len by (simp add: wd)
  with err z sums show "\<bar>t - sum_list (map (\<lambda>r. fin_value (seg_value r)) rows)\<bar>
           \<le> of_nat (length rows) * (t * p2 (- 53))"
    by simp
qed

lemma row_bound:
  assumes "representable v" "v \<le> t" "0 < t"
  shows "1000 * \<bar>rat_of_nat (percentage_tenths (Fin t) (Fin v)) - 1000 * (v / t)\<bar> \<le> 501"
proof -
  define d where "d = \<bar>rat_of_nat (percentage_tenths (Fin t) (Fin v)) - 1000 * (v / t)\<bar>"
  have "d \<le> 1 / 2 + 3010 * p2 (- 53)" unfolding d_def using assms by (rule percentage_text(2))
  with ulp_small have "d \<le> 1 / 2 + 1 / 1000" by simp
  then have "1000 * d \<le> 501" by simp
  then show ?thesis unfolding d_def .
qed

lemma rows_total:
  assumes rows: "\<forall>r\<in>set rows. seg_value r = Fin (fin_value (seg_value r))
            \<and> representable (fin_value (seg_value r)) \<and> fin_value (seg_value r) \<le> t"
    and t: "0 < t"
    and err: "\<bar>t - sum_list (map (\<lambda>r. fin_value (seg_value r)) rows)\<bar>
           \<le> of_nat (length rows) * (t * p2 (- 53))"
  shows "1000 * \<bar>(\<Sum>r\<leftarrow>rows. int (percentage_tenths (Fin t) (seg_value r))) - 1000\<bar>
           \<le> 501 * int (length rows)"
proof -
  let ?ws = "map (\<lambda>r. fin_value (seg_value r)) rows"
  have ws: "\<forall>w\<in>set ?ws. representable w \<and> w \<le> t" using rows by auto
  have err': "\<bar>t - sum_list ?ws\<bar> \<le> of_nat (length ?ws) * (t * p2 (- 53))"
    using err by simp
  have "map (\<lambda>r. rat_of_nat (percentage_tenths (Fin t) (seg_value r))) rows
      = map (\<lambda>r. rat_of_nat (percentage_tenths (Fin t) (Fin (fin_value (seg_value r))))) rows"
    using rows by (intro map_cong) simp_all
  also have "\<dots> = map (\<lambda>w. rat_of_nat (percentage_tenths (Fin t) (Fin w))) ?ws"
    by (simp add: comp_def)
  finally have "(\<Sum>r\<leftarrow>rows. rat_of_nat (percentage_tenths (Fin t) (seg_value r)))
      = (\<Sum>w\<leftarrow>?ws. rat_of_nat (percentage_tenths (Fin t) (Fin w)))"
    by (rule arg_cong)
  with tenths_total [OF ws t err']
  have "1000 * \<bar>(\<Sum>r\<leftarrow>rows. rat_of_nat (percentage_tenths (Fin t) (seg_value r))) - 1000\<bar>
      \<le> 501 * rat_of_nat (length rows)" by simp
  then have "rat_of_int (1000 * \<bar>(\<Sum>r\<leftarrow>rows. int (percentage_tenths (Fin t) (seg_value r))) - 1000\<bar>)
      \<le> rat_of_int (501 * int (length rows))"
    by (simp add: of_int_tenths_sum)
  then show ?thesis by (simp only: of_int_le_iff)
qed

lemma zero_total:
  assumes av: "all_values data"
    and tot: "tot = foldl dadd (Fin 0) (map seg_value data)"
    and np: "\<not> is_pos tot"
    and perm: "mset rows = mset data"
  shows "tot = Fin 0" and "\<forall>r\<in>set rows. seg_value r = Fin 0"
proof -
  have v0: "is_value (Fin 0)" by (simp add: representable_0)
  have vs: "\<forall>v\<in>set (map seg_value data). is_value v" using av by (simp add: all_values_def)
  have "is_value tot" unfolding tot using v0 vs by (rule fold_value)
  then show t0: "tot = Fin 0"
  proof (cases rule: is_value_cases)
    case (1 a)
    with np representable_nonneg [of a] show ?thesis by simp
  next
    case 2
    with np show ?thesis by simp
  qed
  from t0 tot have f: "foldl dadd (Fin 0) (map seg_value data) = Fin 0" by simp
  from finite_total(2) [OF av f perm]
  show "\<forall>r\<in>set rows. seg_value r = Fin 0"
    by (metis antisym representable_nonneg)
qed

lemma tenths_text_0: "tenths_text 0 = ''0.0''"
  by code_simp

lemma infinite_total:
  assumes "is_value v"
  shows "percentage show_num PInf v = (if v = PInf then ''NaN'' else ''0.0'')"
  using assms
  by (cases rule: is_value_cases)
     (simp_all add: percentage_def toFixed1_def to_double_def rnd_mag_0 expo_0 tenths_text_0
        round_tenths_def)

text \<open>
  C6, as the code has it.  The narrative is the heading, one row for each parsed segment
  and the line of the total.  The rows are the segments sorted by value, the largest
  first, and equal values in their source order.  The total is the sum of the values in
  doubles, and 0 when no line holds a segment.

  The total is a double from zero up or infinite.  When it is finite and positive, each
  row reports its value and, as its percentage, a number with one decimal that is within
  0.0501 of value / total \<times> 100; the reported percentages add up to 100 within 0.0501
  for each row.  In the statement \<open>percentage_tenths\<close> is the reported number in tenths,
  \<open>tenths_text\<close> its text.

  When the total is not positive it is 0, every value is 0, every row reports \<open>0\<close> and
  nothing is divided.  When the total is infinite a row reports \<open>0.0\<close>, or \<open>NaN\<close> when
  its own value is infinite.
\<close>

theorem pie_narrative_percentages:
  assumes m: \<open>pie_model source = (data, tot)\<close> and rows: \<open>rows = sort_desc data\<close>
  shows \<open>generatePieNarrative show_num source
           = ''<p><strong>Data breakdown:</strong></p>\<newline><ul>\<newline>''
             @ concat (map (pie_row show_num tot) rows)
             @ ''</ul>\<newline><p style="color: #666; font-size: 0.9em;"><strong>Total:</strong> ''
             @ show_num tot @ ''</p>''
       \<and> mset rows = mset data
       \<and> sorted_wrt (\<lambda>a b. dle (seg_value b) (seg_value a)) rows
       \<and> (\<forall>v. filter (\<lambda>r. seg_value r = v) rows = filter (\<lambda>r. seg_value r = v) data)
       \<and> tot = foldl dadd (Fin 0) (map seg_value data)
       \<and> (data = [] \<longrightarrow> tot = Fin 0)
       \<and> ((\<exists>t. tot = Fin t \<and> 0 \<le> t) \<or> tot = PInf)
       \<and> (\<forall>t. tot = Fin t \<and> 0 < t \<longrightarrow>
            (\<forall>r\<in>set rows. \<exists>v. seg_value r = Fin v \<and> 0 \<le> v \<and> v \<le> t
                \<and> pie_row show_num tot r
                    = ''<li><strong>'' @ escapeHtml (seg_label r) @ ''</strong>: ''
                        @ show_num (Fin v) @ '' (''
                        @ tenths_text (percentage_tenths tot (Fin v)) @ ''%)</li>\<newline>''
                \<and> 1000 * \<bar>rat_of_nat (percentage_tenths tot (Fin v)) - 1000 * (v / t)\<bar> \<le> 501)
          \<and> 1000 * \<bar>(\<Sum>r\<leftarrow>rows. int (percentage_tenths tot (seg_value r))) - 1000\<bar>
                \<le> 501 * int (length rows))
       \<and> (\<not> is_pos tot \<longrightarrow>
            tot = Fin 0
          \<and> (\<forall>r\<in>set rows. seg_value r = Fin 0
                \<and> pie_row show_num tot r
                    = ''<li><strong>'' @ escapeHtml (seg_label r) @ ''</strong>: ''
                        @ show_num (Fin 0) @ '' (0%)</li>\<newline>''))
       \<and> (tot = PInf \<longrightarrow>
            (\<forall>r\<in>set rows. percentage show_num tot (seg_value r)
                             = (if seg_value r = PInf then ''NaN'' else ''0.0'')))\<close>
proof -
  from pie_model_inv [of source] m have av: "all_values data"
    and tot: "tot = foldl dadd (Fin 0) (map seg_value data)" by simp_all
  have nar: \<open>generatePieNarrative show_num source
           = ''<p><strong>Data breakdown:</strong></p>\<newline><ul>\<newline>''
             @ concat (map (pie_row show_num tot) rows)
             @ ''</ul>\<newline><p style="color: #666; font-size: 0.9em;"><strong>Total:</strong> ''
             @ show_num tot @ ''</p>''\<close>
    using m rows by (simp add: generatePieNarrative_def)
  have perm: "mset rows = mset data" unfolding rows by (rule mset_sort_desc)
  have srt: "sorted_wrt (\<lambda>a b. dle (seg_value b) (seg_value a)) rows"
    unfolding rows using av by (rule sorted_sort_desc)
  have stable: "\<forall>v. filter (\<lambda>r. seg_value r = v) rows = filter (\<lambda>r. seg_value r = v) data"
    unfolding rows using av by (simp add: sort_desc_stable)
  have empty: "data = [] \<longrightarrow> tot = Fin 0" using tot by simp
  have "is_value tot"
    unfolding tot using av by (intro fold_value) (simp_all add: representable_0 all_values_def)
  then have range: "(\<exists>t. tot = Fin t \<and> 0 \<le> t) \<or> tot = PInf"
    by (cases rule: is_value_cases) (simp_all add: representable_nonneg)
  have pos: "(\<forall>r\<in>set rows. \<exists>v. seg_value r = Fin v \<and> 0 \<le> v \<and> v \<le> t
                \<and> pie_row show_num tot r
                    = ''<li><strong>'' @ escapeHtml (seg_label r) @ ''</strong>: ''
                        @ show_num (Fin v) @ '' (''
                        @ tenths_text (percentage_tenths tot (Fin v)) @ ''%)</li>\<newline>''
                \<and> 1000 * \<bar>rat_of_nat (percentage_tenths tot (Fin v)) - 1000 * (v / t)\<bar> \<le> 501)
          \<and> 1000 * \<bar>(\<Sum>r\<leftarrow>rows. int (percentage_tenths tot (seg_value r))) - 1000\<bar>
                \<le> 501 * int (length rows)"
    if t: "tot = Fin t" "0 < t" for t
  proof -
    from tot t(1) have f: "foldl dadd (Fin 0) (map seg_value data) = Fin t" by simp
    note fin = finite_total [OF av f perm]
    have each: "\<exists>v. seg_value r = Fin v \<and> 0 \<le> v \<and> v \<le> t
                \<and> pie_row show_num tot r
                    = ''<li><strong>'' @ escapeHtml (seg_label r) @ ''</strong>: ''
                        @ show_num (Fin v) @ '' (''
                        @ tenths_text (percentage_tenths tot (Fin v)) @ ''%)</li>\<newline>''
                \<and> 1000 * \<bar>rat_of_nat (percentage_tenths tot (Fin v)) - 1000 * (v / t)\<bar> \<le> 501"
      if r: "r \<in> set rows" for r
    proof -
      define v where "v = fin_value (seg_value r)"
      from fin(2) r have sv: "seg_value r = Fin v" and rv: "representable v" and vt: "v \<le> t"
        by (simp_all add: v_def)
      have "pie_row show_num tot r
          = ''<li><strong>'' @ escapeHtml (seg_label r) @ ''</strong>: ''
              @ show_num (Fin v) @ '' (''
              @ tenths_text (percentage_tenths tot (Fin v)) @ ''%)</li>\<newline>''"
        unfolding pie_row_def sv t(1) percentage_text(1) [OF rv vt t(2)] ..
      moreover have "1000 * \<bar>rat_of_nat (percentage_tenths tot (Fin v)) - 1000 * (v / t)\<bar> \<le> 501"
        unfolding t(1) using rv vt t(2) by (rule row_bound)
      ultimately show ?thesis using sv representable_nonneg [OF rv] vt by blast
    qed
    have "1000 * \<bar>(\<Sum>r\<leftarrow>rows. int (percentage_tenths tot (seg_value r))) - 1000\<bar>
                \<le> 501 * int (length rows)"
      unfolding t(1) using fin(2) t(2) fin(3) by (rule rows_total)
    with each show ?thesis by blast
  qed
  have zero: "tot = Fin 0
          \<and> (\<forall>r\<in>set rows. seg_value r = Fin 0
                \<and> pie_row show_num tot r
                    = ''<li><strong>'' @ escapeHtml (seg_label r) @ ''</strong>: ''
                        @ show_num (Fin 0) @ '' (0%)</li>\<newline>'')"
    if np: "\<not> is_pos tot"
  proof -
    note z = zero_total [OF av tot np perm]
    have "pie_row show_num tot r
        = ''<li><strong>'' @ escapeHtml (seg_label r) @ ''</strong>: ''
            @ show_num (Fin 0) @ '' (0%)</li>\<newline>''"
      if "r \<in> set rows" for r
      using z(2) that np by (simp add: pie_row_def percentage_def)
    with z show ?thesis by blast
  qed
  have inf: "\<forall>r\<in>set rows. percentage show_num tot (seg_value r)
                             = (if seg_value r = PInf then ''NaN'' else ''0.0'')"
    if "tot = PInf"
    using all_values_sort [OF av] that unfolding rows all_values_def
    by (simp add: infinite_total)
  from nar perm srt stable tot empty range pos zero inf show ?thesis by blast
qed

text \<open>
  C6, witness: the segments A: 23 and B: 57 have total 80 and are narrated as B, A.  The
  quotient 23 / 80 in doubles lies just below 0.2875, so A reports 28.7; B reports 71.3;
  the two add up to 100.0.
\<close>

theorem pie_narrative_percentages_witness:
  \<open>pie_model ''pie\<newline>"A": 23\<newline>"B": 57''
     = ([\<lparr>seg_label = ''A'', seg_value = Fin 23\<rparr>, \<lparr>seg_label = ''B'', seg_value = Fin 57\<rparr>],
        Fin 80)
   \<and> sort_desc [\<lparr>seg_label = ''A'', seg_value = Fin 23\<rparr>, \<lparr>seg_label = ''B'', seg_value = Fin 57\<rparr>]
     = [\<lparr>seg_label = ''B'', seg_value = Fin 57\<rparr>, \<lparr>seg_label = ''A'', seg_value = Fin 23\<rparr>]
   \<and> generatePieNarrative show_whole ''pie\<newline>"A": 23\<newline>"B": 57''
     = ''<p><strong>Data breakdown:</strong></p>\<newline><ul>\<newline><li><strong>B</strong>: 57 (71.3%)</li>\<newline><li><strong>A</strong>: 23 (28.7%)</li>\<newline></ul>\<newline><p style="color: #666; font-size: 0.9em;"><strong>Total:</strong> 80</p>''
   \<and> map (\<lambda>r. percentage_tenths (Fin 80) (seg_value r))
         [\<lparr>seg_label = ''B'', seg_value = Fin 57\<rparr>, \<lparr>seg_label = ''A'', seg_value = Fin 23\<rparr>]
     = [713, 287]
   \<and> 1000 * \<bar>(\<Sum>r\<leftarrow>[\<lparr>seg_label = ''B'', seg_value = Fin 57\<rparr>,
                        \<lparr>seg_label = ''A'', seg_value = Fin 23\<rparr>].
                   int (percentage_tenths (Fin 80) (seg_value r))) - 1000\<bar> \<le> 501 * int 2\<close>
proof -
  let ?data = "[\<lparr>seg_label = ''A'', seg_value = Fin 23\<rparr>, \<lparr>seg_label = ''B'', seg_value = Fin 57\<rparr>]"
  let ?rows = "[\<lparr>seg_label = ''B'', seg_value = Fin 57\<rparr>, \<lparr>seg_label = ''A'', seg_value = Fin 23\<rparr>]"
  have m: \<open>pie_model ''pie\<newline>"A": 23\<newline>"B": 57'' = (?data, Fin 80)\<close>
    by code_simp
  have s: "sort_desc ?data = ?rows" by code_simp
  have n: \<open>generatePieNarrative show_whole ''pie\<newline>"A": 23\<newline>"B": 57''
     = ''<p><strong>Data breakdown:</strong></p>\<newline><ul>\<newline><li><strong>B</strong>: 57 (71.3%)</li>\<newline><li><strong>A</strong>: 23 (28.7%)</li>\<newline></ul>\<newline><p style="color: #666; font-size: 0.9em;"><strong>Total:</strong> 80</p>''\<close>
    by code_simp
  have p: "map (\<lambda>r. percentage_tenths (Fin 80) (seg_value r)) ?rows = [713, 287]"
    by code_simp
  have pos: "Fin 80 = Fin 80 \<and> (0::rat) < 80" by simp
  from pie_narrative_percentages [OF m s [symmetric], of show_whole] pos
  have "1000 * \<bar>(\<Sum>r\<leftarrow>?rows. int (percentage_tenths (Fin 80) (seg_value r))) - 1000\<bar>
          \<le> 501 * int (length ?rows)"
    by blast
  with m s n p show ?thesis by simp
qed

text \<open>
  C6, counterexample to "a non-empty segment set reports percentages that sum to 100":
  the source \<open>pie\<newline>"A": 0\<close> has one segment, its total is 0, and the one row
  reports \<open>0\<close>.
\<close>

theorem pie_all_zero_sum:
  \<open>pie_model ''pie\<newline>"A": 0'' = ([\<lparr>seg_label = ''A'', seg_value = Fin 0\<rparr>], Fin 0)
   \<and> sort_desc [\<lparr>seg_label = ''A'', seg_value = Fin 0\<rparr>] = [\<lparr>seg_label = ''A'', seg_value = Fin 0\<rparr>]
   \<and> percentage show_whole (Fin 0) (Fin 0) = ''0''
   \<and> generatePieNarrative show_whole ''pie\<newline>"A": 0''
     = ''<p><strong>Data breakdown:</strong></p>\<newline><ul>\<newline><li><strong>A</strong>: 0 (0%)</li>\<newline></ul>\<newline><p style="color: #666; font-size: 0.9em;"><strong>Total:</strong> 0</p>''\<close>
  by code_simp


section \<open>The root of the transformed document\<close>

lemma getAttribute_set:
  "getAttribute (setAttribute k v a) k' = (if k' = k then Some v else getAttribute a k')"
  unfolding getAttribute_def setAttribute_def
  by (induction a) auto

lemma keys_map_set:
  "map fst (map_set k v a) = (if k \<in> set (map fst a) then map fst a else map fst a @ [k])"
  by (induction a) force+

lemma distinct_map_set: "distinct (map fst a) \<Longrightarrow> distinct (map fst (map_set k v a))"
  by (simp add: keys_map_set)

lemma distinct_setAttribute:
  "distinct (map fst a) \<Longrightarrow> distinct (map fst (setAttribute k v a))"
  unfolding setAttribute_def by (rule distinct_map_set)

lemma tag_of_walk: "tag_of (walk n) = tag_of n"
  by (cases n) simp_all

lemma tag_of_update_all: "tag_of (update_all p f n) = tag_of n"
  by (cases n) simp_all

lemma tag_of_hide_markers: "tag_of (hide_markers b n) = tag_of n"
  by (cases n) simp_all

lemma plain_walk: "t \<noteq> ''g'' \<Longrightarrow> walk (Elem t a [Txt s]) = Elem t a [Txt s]"
  by (simp add: sel_node_def)

lemma plain_update_edge:
  "t \<noteq> ''g'' \<Longrightarrow> update_all sel_edge f (Elem t a [Txt s]) = Elem t a [Txt s]"
  by (simp add: sel_edge_def)

lemma plain_hide_markers:
  "t \<noteq> ''marker'' \<Longrightarrow> hide_markers b (Elem t a [Txt s]) = Elem t a [Txt s]"
  by simp

lemma flowchart_pass_shape:
  "\<exists>G. keeps_roots G \<and> applyFlowchartSemantics (Elem t a ch) = Elem t a (map G ch)"
proof (cases "list_ex (exists_elem sel_flowchart_id) ch \<and> list_ex (exists_elem sel_node) ch")
  case False
  have "keeps_roots (\<lambda>n. n)" by (simp add: keeps_roots_def)
  moreover from False have "applyFlowchartSemantics (Elem t a ch) = Elem t a (map (\<lambda>n. n) ch)"
    by auto
  ultimately show ?thesis by blast
next
  case True
  let ?G = "\<lambda>n. hide_markers (t = ''defs'') (update_all sel_edge hide (walk n))"
  have "keeps_roots ?G"
    unfolding keeps_roots_def
    by (auto simp: tag_of_walk tag_of_update_all tag_of_hide_markers sel_node_def sel_edge_def)
  moreover from True have "applyFlowchartSemantics (Elem t a ch) = Elem t a (map ?G ch)"
    by (simp add: comp_def)
  ultimately show ?thesis by blast
qed

lemma count_keeps_roots:
  "keeps_roots G \<Longrightarrow>
     length (filter (\<lambda>c. tag_of c = Some name) (map G f))
       = length (filter (\<lambda>c. tag_of c = Some name) f)"
  by (induction f) (auto simp: keeps_roots_def)

lemma keeps_title: "keeps_roots G \<Longrightarrow> G (title_node i m) = title_node i m"
  by (simp add: keeps_roots_def title_node_def)

lemma keeps_desc: "keeps_roots G \<Longrightarrow> G (desc_node i m) = desc_node i m"
  by (simp add: keeps_roots_def desc_node_def)

lemma insert_desc_after_title:
  "insert_desc_node d (title_node i m # base)
     = Inr (if base = [] then [d, title_node i m] else title_node i m # d # base)"
  by (simp add: insert_desc_node_def title_node_def)

lemma transform_tree_titled:
  assumes "truthy (title m)"
  shows "\<exists>G. keeps_roots G \<and>
     transform_tree titleId descId m (Elem t a ch)
       = Inr (Elem t (setAttribute ''xmlns'' ''http://www.w3.org/2000/svg''
                        (labelled titleId descId m (setAttribute ''role'' ''img'' a)))
                   (map G (placed titleId descId m (remove_existing ch))))"
proof -
  let ?a2 = "labelled titleId descId m (setAttribute ''role'' ''img'' a)"
  let ?p = "placed titleId descId m (remove_existing ch)"
  from flowchart_pass_shape [of t ?a2 ?p] obtain G where
    G: "keeps_roots G" and fs: "applyFlowchartSemantics (Elem t ?a2 ?p) = Elem t ?a2 (map G ?p)"
    by blast
  have "transform_tree titleId descId m (Elem t a ch)
       = Inr (Elem t (setAttribute ''xmlns'' ''http://www.w3.org/2000/svg'' ?a2) (map G ?p))"
  proof (cases "truthy (description m)")
    case True
    with assms fs show ?thesis
      using insert_desc_after_title [of "desc_node descId m" titleId m "remove_existing ch"]
      by (simp add: Let_def placed_def title_node_def [symmetric] desc_node_def [symmetric]
            del: applyFlowchartSemantics.simps)
  next
    case False
    with assms fs show ?thesis
      by (simp add: Let_def placed_def title_node_def [symmetric] del: applyFlowchartSemantics.simps)
  qed
  with G show ?thesis by blast
qed

lemma remove_existing_placed:
  assumes G: "keeps_roots G" and d: "truthy (description m)"
  shows "remove_existing (map G (placed titleId descId m base)) = map G base"
proof (cases "base = []")
  case True
  with d have "map G (placed titleId descId m base) = [desc_node descId m, title_node titleId m]"
    by (simp add: placed_def keeps_title [OF G] keeps_desc [OF G])
  with True show ?thesis
    by (simp add: remove_existing_def title_node_def desc_node_def sel_tag_def)
next
  case False
  with d have "map G (placed titleId descId m base)
      = title_node titleId m # desc_node descId m # map G base"
    by (simp add: placed_def keeps_title [OF G] keeps_desc [OF G])
  then show ?thesis
    by (simp add: remove_existing_def title_node_def desc_node_def sel_tag_def)
qed

lemma title_count_placed:
  "length (filter (\<lambda>c. tag_of c = Some ''title'') (placed titleId descId m base))
     = Suc (length (filter (\<lambda>c. tag_of c = Some ''title'') base))"
  by (simp add: placed_def title_node_def desc_node_def)

lemma desc_count_placed:
  "truthy (description m) \<Longrightarrow>
   length (filter (\<lambda>c. tag_of c = Some ''desc'') (placed titleId descId m base))
     = Suc (length (filter (\<lambda>c. tag_of c = Some ''desc'') base))"
  by (simp add: placed_def title_node_def desc_node_def)

lemma title_in_placed: "title_node titleId m \<in> set (placed titleId descId m base)"
  by (simp add: placed_def)

lemma desc_in_placed:
  "truthy (description m) \<Longrightarrow> desc_node descId m \<in> set (placed titleId descId m base)"
  by (simp add: placed_def)

lemma truthy_Some: "truthy (Some t) = (t \<noteq> [])"
  by (simp add: truthy_def falsy_def)

text \<open>
  The body of the transformer for metadata with a non-empty title.  Every successful run
  gives the root the image role and keeps its attribute names distinct, sets the label
  to the title id followed by the description id, or to the title id alone when the
  description is missing, and puts the new title among the children of the root.  With a
  description the new description is among the children as well, and a second run on the
  output, with fresh ids, succeeds, carries the fresh title, description and label, and
  leaves the numbers of title and description children of the root as they were.
\<close>

lemma transform_tree_labelled:
  assumes t: "title m = Some tt" "tt \<noteq> []"
    and out: "transform_tree titleId descId m (Elem tg a ch) = Inr out"
  shows "getAttribute (root_attrs out) ''role'' = Some ''img''
     \<and> (distinct (map fst a) \<longrightarrow> distinct (map fst (root_attrs out)))
     \<and> getAttribute (root_attrs out) ''aria-labelledby''
           = Some (if truthy (description m) then titleId @ '' '' @ descId else titleId)
     \<and> Elem ''title'' [(''id'', titleId)] [Txt tt] \<in> set (childNodes out)
     \<and> root_count ''title'' out = Suc (root_count ''title'' (Elem tg a (remove_existing ch)))
     \<and> (truthy (description m) \<longrightarrow>
           Elem ''desc'' [(''id'', descId)] [Txt (text_of (description m))] \<in> set (childNodes out)
         \<and> root_count ''desc'' out = Suc (root_count ''desc'' (Elem tg a (remove_existing ch)))
         \<and> (\<forall>titleId2 descId2. \<exists>out2.
               transform_tree titleId2 descId2 m out = Inr out2
             \<and> root_count ''title'' out2 = root_count ''title'' out
             \<and> root_count ''desc'' out2 = root_count ''desc'' out
             \<and> Elem ''title'' [(''id'', titleId2)] [Txt tt] \<in> set (childNodes out2)
             \<and> Elem ''desc'' [(''id'', descId2)] [Txt (text_of (description m))]
                   \<in> set (childNodes out2)
             \<and> getAttribute (root_attrs out2) ''aria-labelledby''
                   = Some (titleId2 @ '' '' @ descId2)))"
proof -
  from t have tr: "truthy (title m)" by (simp add: truthy_Some)
  let ?base = "remove_existing ch"
  let ?a2 = "labelled titleId descId m (setAttribute ''role'' ''img'' a)"
  let ?ax = "setAttribute ''xmlns'' ''http://www.w3.org/2000/svg'' ?a2"
  from transform_tree_titled [OF tr, of titleId descId tg a ch] out obtain G where
    G: "keeps_roots G" and o: "out = Elem tg ?ax (map G (placed titleId descId m ?base))"
    by auto
  have role: "getAttribute (root_attrs out) ''role'' = Some ''img''"
    unfolding o by (simp add: getAttribute_set labelled_def)
  have dist: "distinct (map fst a) \<longrightarrow> distinct (map fst (root_attrs out))"
    unfolding o by (simp add: labelled_def distinct_setAttribute)
  have lab: "getAttribute (root_attrs out) ''aria-labelledby''
           = Some (if truthy (description m) then titleId @ '' '' @ descId else titleId)"
    unfolding o using tr by (simp add: getAttribute_set labelled_def)
  have "G (title_node titleId m) \<in> set (childNodes out)"
    unfolding o using title_in_placed [of titleId m descId ?base] by simp
  then have tin: "Elem ''title'' [(''id'', titleId)] [Txt tt] \<in> set (childNodes out)"
    using t by (simp add: keeps_title [OF G]) (simp add: title_node_def)
  have tcount: "root_count ''title'' out = Suc (root_count ''title'' (Elem tg a ?base))"
    unfolding o root_count_def
    by (simp only: childNodes.simps count_keeps_roots [OF G] title_count_placed)
  have rest: "Elem ''desc'' [(''id'', descId)] [Txt (text_of (description m))] \<in> set (childNodes out)
         \<and> root_count ''desc'' out = Suc (root_count ''desc'' (Elem tg a ?base))
         \<and> (\<forall>titleId2 descId2. \<exists>out2.
               transform_tree titleId2 descId2 m out = Inr out2
             \<and> root_count ''title'' out2 = root_count ''title'' out
             \<and> root_count ''desc'' out2 = root_count ''desc'' out
             \<and> Elem ''title'' [(''id'', titleId2)] [Txt tt] \<in> set (childNodes out2)
             \<and> Elem ''desc'' [(''id'', descId2)] [Txt (text_of (description m))]
                   \<in> set (childNodes out2)
             \<and> getAttribute (root_attrs out2) ''aria-labelledby''
                   = Some (titleId2 @ '' '' @ descId2))"
    if d: "truthy (description m)"
  proof -
    have "G (desc_node descId m) \<in> set (childNodes out)"
      unfolding o using desc_in_placed [OF d, of descId titleId ?base] by simp
    then have din: "Elem ''desc'' [(''id'', descId)] [Txt (text_of (description m))]
        \<in> set (childNodes out)"
      by (simp add: keeps_desc [OF G]) (simp add: desc_node_def)
    have dcount: "root_count ''desc'' out = Suc (root_count ''desc'' (Elem tg a ?base))"
      unfolding o root_count_def
      by (simp only: childNodes.simps count_keeps_roots [OF G] desc_count_placed [OF d])
    have tcount': "root_count ''title'' out = Suc (length (filter (\<lambda>c. tag_of c = Some ''title'') ?base))"
      using tcount by (simp add: root_count_def)
    have dcount': "root_count ''desc'' out = Suc (length (filter (\<lambda>c. tag_of c = Some ''desc'') ?base))"
      using dcount by (simp add: root_count_def)
    have again: "\<exists>out2.
               transform_tree titleId2 descId2 m out = Inr out2
             \<and> root_count ''title'' out2 = root_count ''title'' out
             \<and> root_count ''desc'' out2 = root_count ''desc'' out
             \<and> Elem ''title'' [(''id'', titleId2)] [Txt tt] \<in> set (childNodes out2)
             \<and> Elem ''desc'' [(''id'', descId2)] [Txt (text_of (description m))]
                   \<in> set (childNodes out2)
             \<and> getAttribute (root_attrs out2) ''aria-labelledby''
                   = Some (titleId2 @ '' '' @ descId2)" for titleId2 descId2
    proof -
      let ?b2 = "remove_existing (map G (placed titleId descId m ?base))"
      let ?a3 = "labelled titleId2 descId2 m (setAttribute ''role'' ''img'' ?ax)"
      let ?ay = "setAttribute ''xmlns'' ''http://www.w3.org/2000/svg'' ?a3"
      from transform_tree_titled [OF tr, of titleId2 descId2 tg ?ax "map G (placed titleId descId m ?base)"]
      obtain G2 where G2: "keeps_roots G2"
        and o2: "transform_tree titleId2 descId2 m out
                   = Inr (Elem tg ?ay (map G2 (placed titleId2 descId2 m ?b2)))"
        unfolding o by blast
      let ?out2 = "Elem tg ?ay (map G2 (placed titleId2 descId2 m ?b2))"
      have b2: "?b2 = map G ?base" using G d by (rule remove_existing_placed)
      have c1: "root_count ''title'' ?out2 = root_count ''title'' out"
        unfolding tcount' unfolding root_count_def
        by (simp only: childNodes.simps count_keeps_roots [OF G2] title_count_placed b2
              count_keeps_roots [OF G])
      have c2: "root_count ''desc'' ?out2 = root_count ''desc'' out"
        unfolding dcount' unfolding root_count_def
        by (simp only: childNodes.simps count_keeps_roots [OF G2] desc_count_placed [OF d] b2
              count_keeps_roots [OF G])
      have "G2 (title_node titleId2 m) \<in> set (childNodes ?out2)"
        using title_in_placed [of titleId2 m descId2 ?b2] by simp
      then have t2: "Elem ''title'' [(''id'', titleId2)] [Txt tt] \<in> set (childNodes ?out2)"
        using t by (simp add: keeps_title [OF G2]) (simp add: title_node_def)
      have "G2 (desc_node descId2 m) \<in> set (childNodes ?out2)"
        using desc_in_placed [OF d, of descId2 titleId2 ?b2] by simp
      then have d2: "Elem ''desc'' [(''id'', descId2)] [Txt (text_of (description m))]
          \<in> set (childNodes ?out2)"
        by (simp add: keeps_desc [OF G2]) (simp add: desc_node_def)
      have l2: "getAttribute (root_attrs ?out2) ''aria-labelledby''
                   = Some (titleId2 @ '' '' @ descId2)"
        using tr d by (simp add: getAttribute_set labelled_def)
      from o2 c1 c2 t2 d2 l2 show ?thesis by blast
    qed
    from din dcount again show ?thesis by blast
  qed
  from role dist lab tin tcount rest show ?thesis by blast
qed


text \<open>
  C1.  The transformer is called with the metadata that \<open>ensureMetadata\<close> returns, so
  both the title and the description are present and not empty.  For a parsed document
  with root element \<open>Elem tg a ch\<close> and a run of the body that yields \<open>out\<close>, the function
  returns the serialisation of \<open>out\<close>; the root of \<open>out\<close> carries the image role, once
  when the attribute names of the parsed root were distinct; its label is the title id, a
  blank and the description id; the new title and the new description are children of
  the root, one more of each than the root keeps of its old ones.  Running the function on
  its own output, read back by the parser as \<open>out\<close>, with fresh ids succeeds and leaves
  the numbers of title and description children of the root as they are: the new nodes
  replace the old ones, and the label lists the fresh ids.  The last part is the case of
  a missing description with the same title: the label is the title id alone.
\<close>

theorem transformer_labels_root:
  assumes meta: "ensureMetadata source = (updated, m, added)"
    and doc: "parse svgString = Elem tg a ch"
    and run: "transform_tree titleId descId m (parse svgString) = Inr out"
  shows "\<exists>tt dd.
       title m = Some tt \<and> tt \<noteq> [] \<and> description m = Some dd \<and> dd \<noteq> []
     \<and> applyAccessibilityTransformations parse serialize titleId descId svgString m
          = Inr (serialize out)
     \<and> getAttribute (root_attrs out) ''role'' = Some ''img''
     \<and> (distinct (map fst a) \<longrightarrow> distinct (map fst (root_attrs out)))
     \<and> getAttribute (root_attrs out) ''aria-labelledby'' = Some (titleId @ '' '' @ descId)
     \<and> Elem ''title'' [(''id'', titleId)] [Txt tt] \<in> set (childNodes out)
     \<and> Elem ''desc'' [(''id'', descId)] [Txt dd] \<in> set (childNodes out)
     \<and> root_count ''title'' out = Suc (root_count ''title'' (Elem tg a (remove_existing ch)))
     \<and> root_count ''desc'' out = Suc (root_count ''desc'' (Elem tg a (remove_existing ch)))
     \<and> (\<forall>titleId2 descId2. parse (serialize out) = out \<longrightarrow>
           (\<exists>out2.
               applyAccessibilityTransformations parse serialize titleId2 descId2
                   (serialize out) m = Inr (serialize out2)
             \<and> transform_tree titleId2 descId2 m (parse (serialize out)) = Inr out2
             \<and> root_count ''title'' out2 = root_count ''title'' out
             \<and> root_count ''desc'' out2 = root_count ''desc'' out
             \<and> Elem ''title'' [(''id'', titleId2)] [Txt tt] \<in> set (childNodes out2)
             \<and> Elem ''desc'' [(''id'', descId2)] [Txt dd] \<in> set (childNodes out2)
             \<and> getAttribute (root_attrs out2) ''aria-labelledby''
                   = Some (titleId2 @ '' '' @ descId2)))
     \<and> (\<forall>out1. transform_tree titleId descId (m\<lparr>description := None\<rparr>) (parse svgString)
                   = Inr out1 \<longrightarrow>
           applyAccessibilityTransformations parse serialize titleId descId svgString
               (m\<lparr>description := None\<rparr>) = Inr (serialize out1)
         \<and> getAttribute (root_attrs out1) ''aria-labelledby'' = Some titleId)"
proof -
  from ensureMetadata_truthy [OF meta] obtain tt dd where
    t: "title m = Some tt" "tt \<noteq> []" and d: "description m = Some dd" "dd \<noteq> []"
    by (cases "title m"; cases "description m") (auto simp: falsy_def)
  from d have td: "truthy (description m)" by (simp add: truthy_Some)
  from run doc have run': "transform_tree titleId descId m (Elem tg a ch) = Inr out" by simp
  note main = transform_tree_labelled [OF t run']
  have res: "applyAccessibilityTransformations parse serialize titleId descId svgString m
          = Inr (serialize out)"
    using run by (simp add: applyAccessibilityTransformations_def)
  note main' = main [unfolded d(1) text_of.simps]
  have tds: "truthy (Some dd)" using d by (simp add: truthy_Some)
  from main' tds have role: "getAttribute (root_attrs out) ''role'' = Some ''img''"
    and dist: "distinct (map fst a) \<longrightarrow> distinct (map fst (root_attrs out))"
    and lab: "getAttribute (root_attrs out) ''aria-labelledby'' = Some (titleId @ '' '' @ descId)"
    and tin: "Elem ''title'' [(''id'', titleId)] [Txt tt] \<in> set (childNodes out)"
    and tc: "root_count ''title'' out = Suc (root_count ''title'' (Elem tg a (remove_existing ch)))"
    and din: "Elem ''desc'' [(''id'', descId)] [Txt dd] \<in> set (childNodes out)"
    and dc: "root_count ''desc'' out = Suc (root_count ''desc'' (Elem tg a (remove_existing ch)))"
    and again: "\<forall>titleId2 descId2. \<exists>out2.
               transform_tree titleId2 descId2 m out = Inr out2
             \<and> root_count ''title'' out2 = root_count ''title'' out
             \<and> root_count ''desc'' out2 = root_count ''desc'' out
             \<and> Elem ''title'' [(''id'', titleId2)] [Txt tt] \<in> set (childNodes out2)
             \<and> Elem ''desc'' [(''id'', descId2)] [Txt dd] \<in> set (childNodes out2)
             \<and> getAttribute (root_attrs out2) ''aria-labelledby''
                   = Some (titleId2 @ '' '' @ descId2)"
    by metis+
  have rerun: "\<exists>out2.
               applyAccessibilityTransformations parse serialize titleId2 descId2
                   (serialize out) m = Inr (serialize out2)
             \<and> transform_tree titleId2 descId2 m (parse (serialize out)) = Inr out2
             \<and> root_count ''title'' out2 = root_count ''title'' out
             \<and> root_count ''desc'' out2 = root_count ''desc'' out
             \<and> Elem ''title'' [(''id'', titleId2)] [Txt tt] \<in> set (childNodes out2)
             \<and> Elem ''desc'' [(''id'', descId2)] [Txt dd] \<in> set (childNodes out2)
             \<and> getAttribute (root_attrs out2) ''aria-labelledby''
                   = Some (titleId2 @ '' '' @ descId2)"
    if trip: "parse (serialize out) = out" for titleId2 descId2
  proof -
    from again obtain out2 where o2: "transform_tree titleId2 descId2 m out = Inr out2"
      and rest: "root_count ''title'' out2 = root_count ''title'' out"
        "root_count ''desc'' out2 = root_count ''desc'' out"
        "Elem ''title'' [(''id'', titleId2)] [Txt tt] \<in> set (childNodes out2)"
        "Elem ''desc'' [(''id'', descId2)] [Txt dd] \<in> set (childNodes out2)"
        "getAttribute (root_attrs out2) ''aria-labelledby'' = Some (titleId2 @ '' '' @ descId2)"
      by blast
    from o2 trip have "applyAccessibilityTransformations parse serialize titleId2 descId2
                   (serialize out) m = Inr (serialize out2)"
      and "transform_tree titleId2 descId2 m (parse (serialize out)) = Inr out2"
      by (simp_all add: applyAccessibilityTransformations_def)
    with rest show ?thesis by blast
  qed
  have nodesc: "applyAccessibilityTransformations parse serialize titleId descId svgString
               (m\<lparr>description := None\<rparr>) = Inr (serialize out1)
         \<and> getAttribute (root_attrs out1) ''aria-labelledby'' = Some titleId"
    if r1: "transform_tree titleId descId (m\<lparr>description := None\<rparr>) (parse svgString) = Inr out1"
    for out1
  proof -
    have t1: "title (m\<lparr>description := None\<rparr>) = Some tt" using t by simp
    have nd: "\<not> truthy (description (m\<lparr>description := None\<rparr>))"
      by (simp add: truthy_def falsy_def)
    from r1 doc have r1': "transform_tree titleId descId (m\<lparr>description := None\<rparr>) (Elem tg a ch)
        = Inr out1" by simp
    from transform_tree_labelled [OF t1 t(2) r1'] nd
    have "getAttribute (root_attrs out1) ''aria-labelledby'' = Some titleId" by simp
    moreover from r1 have "applyAccessibilityTransformations parse serialize titleId descId
        svgString (m\<lparr>description := None\<rparr>) = Inr (serialize out1)"
      by (simp add: applyAccessibilityTransformations_def)
    ultimately show ?thesis by simp
  qed
  from t d res role dist lab tin din tc dc rerun nodesc show ?thesis by blast
qed

text \<open>
  C1, witness: the source \<open>flowchart TD\<newline>A[Start]\<close> gets the default title and description.
  The parser reads the markup \<open>in\<close> as a rendered flowchart with one node and any other
  markup as the transformed document; the first run returns that document, and a run on
  it with fresh ids keeps one title and one description child and lists the fresh ids.
\<close>

theorem transformer_labels_root_witness:
  "ensureMetadata ''flowchart TD\<newline>A[Start]'' =
     (''flowchart TD\<newline>A[Start]\<newline>%%accTitle Untitled Diagram\<newline>%%accDescr Auto-generated description for accessibility. Please customize.\<newline>'',
      \<lparr>title = Some ''Untitled Diagram'',
       description = Some ''Auto-generated description for accessibility. Please customize.''\<rparr>,
      True)
   \<and> transform_tree ''title-1'' ''desc-1''
        \<lparr>title = Some ''Untitled Diagram'',
         description = Some ''Auto-generated description for accessibility. Please customize.''\<rparr>
        rendered_one_node = Inr labelled_one_node
   \<and> root_count ''title'' labelled_one_node = 1
   \<and> root_count ''desc'' labelled_one_node = 1
   \<and> getAttribute (root_attrs labelled_one_node) ''aria-labelledby'' = Some ''title-1 desc-1''
   \<and> (\<exists>out2. applyAccessibilityTransformations
                 (\<lambda>s. if s = ''in'' then rendered_one_node else labelled_one_node)
                 (\<lambda>d. ''out'') ''title-2'' ''desc-2'' ''out''
                 \<lparr>title = Some ''Untitled Diagram'',
                  description = Some ''Auto-generated description for accessibility. Please customize.''\<rparr>
               = Inr ''out''
        \<and> transform_tree ''title-2'' ''desc-2''
             \<lparr>title = Some ''Untitled Diagram'',
              description = Some ''Auto-generated description for accessibility. Please customize.''\<rparr>
             labelled_one_node = Inr out2
        \<and> root_count ''title'' out2 = 1 \<and> root_count ''desc'' out2 = 1
        \<and> getAttribute (root_attrs out2) ''aria-labelledby'' = Some ''title-2 desc-2'')"
proof -
  let ?m = "\<lparr>title = Some ''Untitled Diagram'',
       description = Some ''Auto-generated description for accessibility. Please customize.''\<rparr>"
  let ?parse = "\<lambda>s. if s = ''in'' then rendered_one_node else labelled_one_node"
  let ?serialize = "\<lambda>d::dom. ''out''"
  have e: "ensureMetadata ''flowchart TD\<newline>A[Start]'' =
     (''flowchart TD\<newline>A[Start]\<newline>%%accTitle Untitled Diagram\<newline>%%accDescr Auto-generated description for accessibility. Please customize.\<newline>'',
      ?m, True)"
    by code_simp
  have doc: "?parse ''in'' = Elem ''svg'' [(''id'', ''m'')]
        [Elem ''g'' [(''class'', ''node default''), (''id'', ''flowchart-A-0'')]
           [Elem ''rect'' [] [], Elem ''text'' [] [Txt ''Start'']]]"
    by (simp add: rendered_one_node_def)
  have h: "transform_tree ''title-1'' ''desc-1'' ?m rendered_one_node = Inr labelled_one_node"
    by code_simp
  then have run: "transform_tree ''title-1'' ''desc-1'' ?m (?parse ''in'') = Inr labelled_one_node"
    by simp
  have c: "root_count ''title'' labelled_one_node = 1" "root_count ''desc'' labelled_one_node = 1"
    "getAttribute (root_attrs labelled_one_node) ''aria-labelledby'' = Some ''title-1 desc-1''"
    by code_simp+
  have trip: "?parse (?serialize labelled_one_node) = labelled_one_node" by simp
  from transformer_labels_root
         [where parse = ?parse and svgString = "''in''" and serialize = ?serialize, OF e doc run]
       trip c
  have "\<exists>out2. applyAccessibilityTransformations ?parse ?serialize ''title-2'' ''desc-2''
                 (?serialize labelled_one_node) ?m = Inr (?serialize out2)
        \<and> transform_tree ''title-2'' ''desc-2'' ?m (?parse (?serialize labelled_one_node)) = Inr out2
        \<and> root_count ''title'' out2 = 1 \<and> root_count ''desc'' out2 = 1
        \<and> getAttribute (root_attrs out2) ''aria-labelledby'' = Some (''title-2'' @ '' '' @ ''desc-2'')"
    by metis
  then have "\<exists>out2. applyAccessibilityTransformations ?parse ?serialize ''title-2'' ''desc-2''
                 ''out'' ?m = Inr ''out''
        \<and> transform_tree ''title-2'' ''desc-2'' ?m labelled_one_node = Inr out2
        \<and> root_count ''title'' out2 = 1 \<and> root_count ''desc'' out2 = 1
        \<and> getAttribute (root_attrs out2) ''aria-labelledby'' = Some ''title-2 desc-2''"
    by simp
  with e h c show ?thesis by blast
qed

section \<open>Parse failures\<close>

text \<open>
  With a non-empty title the transformer has no error path at all: whatever document the
  parser hands over, the result is a serialised document.
\<close>

lemma transformer_always_serialises:
  assumes "truthy (title m)"
  shows "\<exists>doc. applyAccessibilityTransformations parse serialize titleId descId svgString m
           = Inr (serialize doc)"
proof (cases "parse svgString")
  case (Elem t a ch)
  with transform_tree_titled [OF assms, of titleId descId t a ch] show ?thesis
    by (auto simp: applyAccessibilityTransformations_def)
next
  case (Txt s)
  then have "applyAccessibilityTransformations parse serialize titleId descId svgString m
      = Inr (serialize (Txt s))"
    by (simp add: applyAccessibilityTransformations_def)
  then show ?thesis by blast
qed

text \<open>
  C7: a parse failure is to reach the caller as an error.  For malformed markup the
  parser returns a document that holds a \<open>parsererror\<close> element; \<open>parseSvgSafely\<close> reports
  it, but \<open>applyAccessibilityTransformations\<close> never looks for it: it decorates the error
  document and returns its serialisation as a result.
\<close>

theorem transformer_returns_on_parse_error:
  "parseSvgSafely (\<lambda>s. Elem ''parsererror'' [] [Txt ''not well-formed'']) ''<svg''
     = (False, Some ''not well-formed'')
   \<and> applyAccessibilityTransformations
       (\<lambda>s. Elem ''parsererror'' [] [Txt ''not well-formed'']) serialize
       ''title-1'' ''desc-1'' ''<svg'' \<lparr>title = Some ''T'', description = Some ''D''\<rparr>
     = Inr (serialize
         (Elem ''parsererror''
            [(''role'', ''img''), (''aria-labelledby'', ''title-1 desc-1''),
             (''xmlns'', ''http://www.w3.org/2000/svg'')]
            [Elem ''title'' [(''id'', ''title-1'')] [Txt ''T''],
             Elem ''desc'' [(''id'', ''desc-1'')] [Txt ''D''],
             Txt ''not well-formed'']))"
proof -
  have "transform_tree ''title-1'' ''desc-1'' \<lparr>title = Some ''T'', description = Some ''D''\<rparr>
          (Elem ''parsererror'' [] [Txt ''not well-formed''])
        = Inr (Elem ''parsererror''
            [(''role'', ''img''), (''aria-labelledby'', ''title-1 desc-1''),
             (''xmlns'', ''http://www.w3.org/2000/svg'')]
            [Elem ''title'' [(''id'', ''title-1'')] [Txt ''T''],
             Elem ''desc'' [(''id'', ''desc-1'')] [Txt ''D''],
             Txt ''not well-formed''])"
    by code_simp
  then show ?thesis
    by (simp add: applyAccessibilityTransformations_def parseSvgSafely_def sel_tag_def)
qed

section \<open>The flowchart pass\<close>

text \<open>
  The lemmas follow the function.  Hiding changes one attribute and no selector of the
  function looks at it, so every step after the new title is in the relation \<open>hv\<close>; a
  node group without a node group inside is rewritten by \<open>walk\<close> in one step; and the
  node groups of the result are the images of the node groups of the document, in order.
\<close>

lemma map_of_map_set: "map_of (map_set k v a) k' = (if k' = k then Some v else map_of a k')"
  by (induction a) auto

lemma hide_hide: "hide (hide a) = hide a"
proof -
  have "\<And>k v. map_set k v (map_set k v a) = map_set k v a"
  proof -
    fix k :: string and v :: string
    show "map_set k v (map_set k v a) = map_set k v a" by (induction a) auto
  qed
  then show ?thesis by (simp add: hide_def setAttribute_def)
qed

lemma is_hidden_hide: "is_hidden (hide a)"
  by (simp add: is_hidden_def hide_def getAttribute_def setAttribute_def map_of_map_set)

lemma getAttribute_hide: "k \<noteq> ''aria-hidden'' \<Longrightarrow> getAttribute (hide a) k = getAttribute a k"
  by (simp add: hide_def getAttribute_def setAttribute_def map_of_map_set)

lemma has_class_hide: "has_class (hide a) c = has_class a c"
  by (simp add: has_class_def hide_def setAttribute_def map_of_map_set)

lemma sel_node_hide: "sel_node t (hide a) = sel_node t a"
  by (simp add: sel_node_def has_class_hide)

lemma sel_edge_hide: "sel_edge t (hide a) = sel_edge t a"
  by (simp add: sel_edge_def has_class_hide)

lemma sel_listitem_hide: "sel_listitem t (hide a) = sel_listitem t a"
  by (simp add: sel_listitem_def getAttribute_hide)

lemma sel_node_role: "sel_node t (setAttribute ''role'' v a) = sel_node t a"
  by (simp add: sel_node_def has_class_def setAttribute_def map_of_map_set)

lemma hv_refl: "hv T n n"
proof (induction n)
  case (Elem t a ch)
  then have "list_all2 (hv T) ch ch" by (simp add: list_all2_same)
  then show ?case by (simp add: hv_elem)
qed (rule hv_txt)

lemma hv_tag: "hv T n n' \<Longrightarrow> tag_of n' = tag_of n"
  by (induction rule: hv.induct) auto

lemma hv_mono: "hv T n n' \<Longrightarrow> (\<And>t. T t \<Longrightarrow> T' t) \<Longrightarrow> hv T' n n'"
proof (induction rule: hv.induct)
  case (hv_txt s)
  show ?case by (rule hv.hv_txt)
next
  case (hv_elem a' a t ch ch')
  from hv_elem.IH hv_elem.prems have "list_all2 (hv T') ch ch'"
    by (simp add: list_all2_conv_all_nth)
  with hv_elem.hyps(1) hv_elem.prems show ?case by (auto intro: hv.hv_elem)
qed

lemma hv_update_all:
  assumes "\<And>t a. p t a \<Longrightarrow> T t"
  shows "hv T n (update_all p hide n)"
proof (induction n)
  case (Elem t a ch)
  then have "list_all2 (hv T) ch (map (update_all p hide) ch)"
    by (simp add: list_all2_conv_all_nth)
  with assms show ?case by (auto intro: hv_elem)
qed (simp add: hv_txt)

lemma hv_hide_markers: "T ''marker'' \<Longrightarrow> hv T n (hide_markers b n)"
proof (induction n arbitrary: b)
  case (Elem t a ch)
  then have "list_all2 (hv T) ch (map (hide_markers (b \<or> t = ''defs'')) ch)"
    by (simp add: list_all2_conv_all_nth)
  with Elem.prems show ?case by (auto intro: hv_elem)
qed (simp add: hv_txt)

lemma hv_hide_later_texts:
  "T ''text'' \<Longrightarrow> list_all2 (hv T) f (hide_later_texts seen f)"
proof (induction seen f rule: hide_later_texts.induct)
  case (1 seen)
  show ?case by simp
next
  case (2 seen s r)
  then show ?case by (simp add: hv_txt)
next
  case (3 seen t a ch r)
  then show ?case by (auto intro: hv_elem)
qed

inductive_cases hv_ElemE: "hv T (Elem t a ch) n'"

inductive_cases hv_TxtE: "hv T (Txt s) n'"

lemma hv_trans: "hv T x y \<Longrightarrow> hv T y z \<Longrightarrow> hv T x z"
proof (induction arbitrary: z rule: hv.induct)
  case (hv_txt s)
  then show ?case by simp
next
  case (hv_elem a' a t ch ch')
  from hv_elem.prems obtain a'' ch'' where z: "z = Elem t a'' ch''"
    and a'': "a'' = a' \<or> (T t \<and> a'' = hide a')"
    and l: "list_all2 (hv T) ch' ch''"
    by (auto elim: hv_ElemE)
  have "list_all2 (hv T) ch ch''"
    using hv_elem.IH l
    by (auto simp: list_all2_conv_all_nth)
  moreover from hv_elem.hyps(1) a'' have "a'' = a \<or> (T t \<and> a'' = hide a)"
    by (auto simp: hide_hide)
  ultimately show ?case unfolding z by (rule hv.hv_elem [rotated])
qed

lemma hv_select_node:
  "hv T n n' \<Longrightarrow> list_all2 (hv T) (select_all sel_node n) (select_all sel_node n')"
proof (induction rule: hv.induct)
  case (hv_txt s)
  show ?case by simp
next
  case (hv_elem a' a t ch ch')
  have sel: "sel_node t a' = sel_node t a"
    using hv_elem.hyps(1) by (auto simp: sel_node_hide)
  have kids: "list_all2 (hv T) (concat (map (select_all sel_node) ch))
                (concat (map (select_all sel_node) ch'))"
    using hv_elem.IH
  proof (induction ch ch' rule: list_all2_induct)
    case Nil
    show ?case by simp
  next
    case (Cons x xs y ys)
    then show ?case by (auto intro: list_all2_appendI)
  qed
  have self: "hv T (Elem t a ch) (Elem t a' ch')"
    using hv_elem.hyps(1) hv_elem.IH
    by (intro hv.hv_elem) (auto simp: list_all2_conv_all_nth)
  from sel kids self show ?case by simp
qed

lemma hv_all_elem:
  assumes ok: "\<And>t a. p t a \<Longrightarrow> p t (hide a)"
  shows "hv T n n' \<Longrightarrow> all_elem p n \<Longrightarrow> all_elem p n'"
proof (induction rule: hv.induct)
  case (hv_txt s)
  show ?case by simp
next
  case (hv_elem a' a t ch ch')
  from hv_elem.prems have pa: "p t a" and pch: "list_all (all_elem p) ch" by simp_all
  from hv_elem.hyps(1) pa ok have "p t a'" by auto
  moreover have "list_all (all_elem p) ch'"
    using hv_elem.IH pch
    by (auto simp: list_all2_conv_all_nth list_all_length)
  ultimately show ?case by simp
qed

lemma shape_ok_hide: "shape_ok t a \<Longrightarrow> shape_ok t (hide a)"
  by (simp add: shape_ok_def is_hidden_hide)

lemma edge_ok_hide: "edge_ok t a \<Longrightarrow> edge_ok t (hide a)"
  by (simp add: edge_ok_def is_hidden_hide)

lemma role_ok_hide: "role_ok t a \<Longrightarrow> role_ok t (hide a)"
  by (simp add: role_ok_def sel_listitem_hide sel_node_hide)

lemma hv_title_count:
  "list_all2 (hv T) f f' \<Longrightarrow> length (title_children f') = length (title_children f)"
  by (induction f f' rule: list_all2_induct) (auto simp: title_children_def hv_tag)

lemma hv_plain:
  "hv T (Elem t a [Txt s]) n' \<Longrightarrow> \<not> T t \<Longrightarrow> n' = Elem t a [Txt s]"
  by (auto elim!: hv_ElemE hv_TxtE simp: list_all2_Cons1)

lemma hv_exists:
  assumes tagonly: "\<And>t a. p t (hide a) = p t a"
  shows "hv T n n' \<Longrightarrow> exists_elem p n' = exists_elem p n"
proof (induction rule: hv.induct)
  case (hv_txt s)
  show ?case by simp
next
  case (hv_elem a' a t ch ch')
  have "p t a' = p t a" using hv_elem.hyps(1) tagonly by auto
  moreover have "list_ex (exists_elem p) ch' = list_ex (exists_elem p) ch"
    using hv_elem.IH
    by (induction ch ch' rule: list_all2_induct) auto
  ultimately show ?case by simp
qed

lemma hv_remove_first:
  "(\<And>t a. p t (hide a) = p t a) \<Longrightarrow> list_all2 (hv T) f f' \<Longrightarrow>
     list_all2 (hv T) (remove_first p f) (remove_first p f')"
proof (induction p f arbitrary: f' rule: remove_first.induct)
  case (1 p)
  then show ?case by simp
next
  case (2 p s r)
  from "2.prems"(2) obtain y r' where f': "f' = y # r'" and y: "hv T (Txt s) y"
    and r: "list_all2 (hv T) r r'"
    by (auto simp: list_all2_Cons1)
  from y have "y = Txt s" by (auto elim: hv_TxtE)
  with "2.IH" [OF "2.prems"(1) r] f' show ?case by (simp add: hv_txt)
next
  case (3 p t a ch r)
  note tagonly = "3.prems"(1)
  from "3.prems"(2) obtain y r' where f': "f' = y # r'" and y: "hv T (Elem t a ch) y"
    and r: "list_all2 (hv T) r r'"
    by (auto simp: list_all2_Cons1)
  from y obtain a' ch' where y': "y = Elem t a' ch'"
    and a': "a' = a \<or> (T t \<and> a' = hide a)" and c: "list_all2 (hv T) ch ch'"
    by (auto elim: hv_ElemE)
  have pa: "p t a' = p t a" using a' tagonly by auto
  have ex: "list_ex (exists_elem p) ch' = list_ex (exists_elem p) ch"
    using c hv_exists [of p T, OF tagonly]
    by (induction ch ch' rule: list_all2_induct) auto
  show ?case
  proof (cases "p t a")
    case True
    with pa f' y' r show ?thesis by simp
  next
    case False
    show ?thesis
    proof (cases "list_ex (exists_elem p) ch")
      case True
      from "3.IH"(1) [OF False True tagonly c]
      have "list_all2 (hv T) (remove_first p ch) (remove_first p ch')" .
      then have "hv T (Elem t a (remove_first p ch)) (Elem t a' (remove_first p ch'))"
        using a' by (intro hv_elem)
      with False True pa ex f' y' r show ?thesis by simp
    next
      case nex: False
      from "3.IH"(2) [OF False nex tagonly r]
      have "list_all2 (hv T) (remove_first p r) (remove_first p r')" .
      with False nex pa ex f' y' y show ?thesis by simp
    qed
  qed
qed

lemma exists_select: "exists_elem p n = (select_all p n \<noteq> [])"
  by (induction n) (auto simp: list_ex_iff)

lemma walk_no_groups: "\<not> exists_elem sel_node n \<Longrightarrow> walk n = n"
proof (induction n)
  case (Elem t a ch)
  from Elem.prems have ng: "\<not> sel_node t a" and kids: "\<forall>c\<in>set ch. \<not> exists_elem sel_node c"
    by (auto simp: list_ex_iff)
  from kids Elem.IH have "map walk ch = ch" by (simp add: map_idI)
  with ng show ?case by simp
qed simp

lemma hv_map: "(\<And>x. hv T x (f x)) \<Longrightarrow> list_all2 (hv T) xs (map f xs)"
  by (induction xs) auto

lemma hv_list_exists_node:
  "list_all2 (hv T) f f' \<Longrightarrow>
     list_ex (exists_elem sel_node) f' = list_ex (exists_elem sel_node) f"
proof (induction f f' rule: list_all2_induct)
  case Nil
  show ?case by simp
next
  case (Cons x xs y ys)
  have "exists_elem sel_node y = exists_elem sel_node x"
    using Cons.hyps(1) by (intro hv_exists [of sel_node T]) (simp_all add: sel_node_hide)
  with Cons.IH show ?case by simp
qed

lemma remove_first_exists:
  "list_ex (exists_elem q) (remove_first p f) \<Longrightarrow> list_ex (exists_elem q) f"
  by (induction p f rule: remove_first.induct) (auto split: if_splits)

lemma hv_node_rest_steps:
  "list_all2 (hv hidable) ch (hide_later_texts False ch)"
  "list_all2 (hv hidable) r (map (update_all sel_shape hide) r)"
proof -
  show "list_all2 (hv hidable) ch (hide_later_texts False ch)"
    by (rule hv_hide_later_texts) (simp add: hidable_def)
  have "\<And>x. hv hidable x (update_all sel_shape hide x)"
    by (rule hv_update_all) (auto simp: sel_shape_def hidable_def)
  then show "list_all2 (hv hidable) r (map (update_all sel_shape hide) r)"
    by (rule hv_map)
qed

lemma node_rest_no_groups:
  assumes "\<not> list_ex (exists_elem sel_node) ch"
  shows "\<not> list_ex (exists_elem sel_node) (node_rest ch)"
proof
  let ?r = "remove_first (sel_tag ''title'') (hide_later_texts False ch)"
  assume "list_ex (exists_elem sel_node) (node_rest ch)"
  then have "list_ex (exists_elem sel_node) ?r"
    using hv_list_exists_node [OF hv_node_rest_steps(2) [of ?r]] by (simp add: node_rest_def)
  then have "list_ex (exists_elem sel_node) (hide_later_texts False ch)"
    by (rule remove_first_exists)
  then have "list_ex (exists_elem sel_node) ch"
    using hv_list_exists_node [OF hv_node_rest_steps(1) [of ch]] by simp
  with assms show False by simp
qed

lemma node_title_no_groups: "\<not> list_ex (exists_elem sel_node) (node_title ch)"
  by (simp add: node_title_def sel_node_def)

lemma walk_group:
  assumes "sel_node t a" and "\<not> list_ex (exists_elem sel_node) ch"
  shows "walk (Elem t a ch)
           = Elem t (setAttribute ''role'' ''listitem'' a) (node_title ch @ node_rest ch)"
proof -
  from node_rest_no_groups [OF assms(2)] have "\<forall>c\<in>set (node_rest ch). \<not> exists_elem sel_node c"
    by (simp add: list_ex_iff)
  then have "map walk (node_rest ch) = node_rest ch"
    by (simp add: map_idI walk_no_groups)
  with assms(1) show ?thesis by simp
qed

lemma select_none: "\<not> list_ex (exists_elem p) f \<Longrightarrow> concat (map (select_all p) f) = []"
  by (induction f) (auto simp: exists_select)

lemma select_walk:
  "non_nested n \<Longrightarrow> select_all sel_node (walk n) = map walk (select_all sel_node n)"
proof (induction n)
  case (Elem t a ch)
  show ?case
  proof (cases "sel_node t a")
    case True
    with Elem.prems have ng: "\<not> list_ex (exists_elem sel_node) ch" by simp
    have ng': "\<not> list_ex (exists_elem sel_node) (node_title ch @ node_rest ch)"
      using node_rest_no_groups [OF ng] node_title_no_groups [of ch] by simp
    have "select_all sel_node (walk (Elem t a ch)) = [walk (Elem t a ch)]"
      unfolding walk_group [OF True ng]
      using True select_none [OF ng'] by (simp add: sel_node_role)
    moreover have "select_all sel_node (Elem t a ch) = [Elem t a ch]"
      using True select_none [OF ng] by simp
    ultimately show ?thesis by simp
  next
    case False
    with Elem.prems have nn: "\<forall>c\<in>set ch. non_nested c" by (simp add: list_all_iff)
    have "concat (map (select_all sel_node) (map walk ch))
        = map walk (concat (map (select_all sel_node) ch))"
      using Elem.IH nn by (induction ch) auto
    with False show ?thesis by simp
  qed
qed simp

lemma select_groups_flat:
  "non_nested n \<Longrightarrow> g \<in> set (select_all sel_node n) \<Longrightarrow>
     \<exists>t a ch. g = Elem t a ch \<and> sel_node t a \<and> \<not> list_ex (exists_elem sel_node) ch"
proof (induction n)
  case (Elem t a ch)
  show ?case
  proof (cases "sel_node t a")
    case True
    with Elem.prems(1) have ng: "\<not> list_ex (exists_elem sel_node) ch" by simp
    with True Elem.prems(2) select_none [OF ng] show ?thesis by simp
  next
    case False
    with Elem.prems obtain c where "c \<in> set ch" "non_nested c" "g \<in> set (select_all sel_node c)"
      by (auto simp: list_all_iff)
    with Elem.IH show ?thesis by blast
  qed
qed simp

lemma update_all_establishes:
  "all_elem (\<lambda>t a. p t a \<longrightarrow> is_hidden a) (update_all p hide n)"
  by (induction n) (auto simp: is_hidden_hide list_all_iff)

lemma shapes_hidden_update: "all_elem shape_ok (update_all sel_shape hide n)"
  using update_all_establishes [of sel_shape n] by (simp add: shape_ok_def [abs_def])

lemma edges_hidden_update: "all_elem edge_ok (update_all sel_edge hide n)"
  using update_all_establishes [of sel_edge n] by (simp add: edge_ok_def [abs_def])

lemma markers_hidden: "markers_ok b (hide_markers b n)"
  by (induction n arbitrary: b) (auto simp: is_hidden_hide list_all_iff)

lemma hv_list_all_elem:
  assumes ok: "\<And>t a. p t a \<Longrightarrow> p t (hide a)"
  shows "list_all2 (hv T) f f' \<Longrightarrow> list_all (all_elem p) f \<Longrightarrow> list_all (all_elem p) f'"
proof (induction f f' rule: list_all2_induct)
  case Nil
  show ?case by simp
next
  case (Cons x xs y ys)
  from Cons.prems have px: "all_elem p x" and pxs: "list_all (all_elem p) xs" by simp_all
  from hv_all_elem [of p T x y, OF ok Cons.hyps(1) px] Cons.IH [OF pxs] show ?case by simp
qed

lemma not_hidable_title: "\<not> hidable ''title''"
  by (simp add: hidable_def)

lemma node_title_cases:
  "node_title ch = [] \<or> (\<exists>s. s \<noteq> [] \<and> node_title ch = [Elem ''title'' [] [Txt s]])"
  by (simp add: node_title_def)

lemma hv_node_title:
  assumes "list_all2 (hv hidable) (node_title ch) x1"
  shows "x1 = node_title ch"
proof -
  from node_title_cases [of ch] show ?thesis
  proof
    assume "node_title ch = []"
    with assms show ?thesis by simp
  next
    assume "\<exists>s. s \<noteq> [] \<and> node_title ch = [Elem ''title'' [] [Txt s]]"
    then obtain s where nt: "node_title ch = [Elem ''title'' [] [Txt s]]" by blast
    with assms obtain y where x1: "x1 = [y]" and y: "hv hidable (Elem ''title'' [] [Txt s]) y"
      by (auto simp: list_all2_Cons1)
    from hv_plain [OF y not_hidable_title] x1 nt show ?thesis by simp
  qed
qed

lemma title_children_node_title: "title_children (node_title ch) = node_title ch"
  by (simp add: node_title_def title_children_def)

lemma node_rest_title_count:
  "length (title_children (node_rest ch))
     = length (title_children (remove_first (sel_tag ''title'') ch))"
proof -
  let ?r = "remove_first (sel_tag ''title'') (hide_later_texts False ch)"
  have "length (title_children (node_rest ch)) = length (title_children ?r)"
    unfolding node_rest_def by (rule hv_title_count) (rule hv_node_rest_steps(2))
  also have "list_all2 (hv hidable) (remove_first (sel_tag ''title'') ch) ?r"
    by (rule hv_remove_first) (simp_all add: sel_tag_def hv_node_rest_steps(1))
  then have "length (title_children ?r)
      = length (title_children (remove_first (sel_tag ''title'') ch))"
    by (rule hv_title_count)
  finally show ?thesis .
qed

lemma node_rest_shapes: "list_all (all_elem shape_ok) (node_rest ch)"
  by (simp add: node_rest_def list_all_iff shapes_hidden_update)

lemma node_title_shapes: "list_all (all_elem shape_ok) (node_title ch)"
  by (simp add: node_title_def shape_ok_def sel_shape_def)

lemma sel_listitem_set: "sel_listitem t (setAttribute ''role'' ''listitem'' a)"
  by (simp add: sel_listitem_def getAttribute_def setAttribute_def map_of_map_set)

lemma node_done_walk:
  assumes g: "sel_node t a" "\<not> list_ex (exists_elem sel_node) ch"
    and h: "hv hidable (walk (Elem t a ch)) g'"
  shows "node_done (Elem t a ch) g'"
proof -
  let ?ra = "setAttribute ''role'' ''listitem'' a"
  from h obtain a' ch' where g': "g' = Elem t a' ch'"
    and a': "a' = ?ra \<or> (hidable t \<and> a' = hide ?ra)"
    and c: "list_all2 (hv hidable) (node_title ch @ node_rest ch) ch'"
    unfolding walk_group [OF g] by (auto elim: hv_ElemE)
  from a' have role: "sel_listitem [] a'"
    using sel_listitem_set [of "[]" a] by (auto simp: sel_listitem_hide)
  from c obtain x1 x2 where ch': "ch' = x1 @ x2"
    and c1: "list_all2 (hv hidable) (node_title ch) x1"
    and c2: "list_all2 (hv hidable) (node_rest ch) x2"
    by (auto simp: list_all2_append1)
  have x1: "x1 = node_title ch" using c1 by (rule hv_node_title)
  have first: "take (length (node_title ch)) ch' = node_title ch"
    by (simp add: ch' x1)
  have "length (title_children ch') = length (title_children (node_title ch @ node_rest ch))"
    using c by (rule hv_title_count)
  also have "\<dots> = length (node_title ch) + length (title_children (node_rest ch))"
    using title_children_node_title [of ch] by (simp add: title_children_def)
  finally have count: "length (title_children ch')
      = length (node_title ch) + length (title_children (remove_first (sel_tag ''title'') ch))"
    by (simp add: node_rest_title_count)
  have "list_all (all_elem shape_ok) (node_title ch @ node_rest ch)"
    using node_title_shapes [of ch] node_rest_shapes [of ch] by simp
  with c have shapes: "list_all (all_elem shape_ok) ch'"
    by (rule hv_list_all_elem [rotated]) (rule shape_ok_hide)
  from role first count shapes show ?thesis by (simp add: node_done_def g')
qed

lemma iff_ok_hide: "iff_ok t a \<Longrightarrow> iff_ok t (hide a)"
  by (simp add: iff_ok_def sel_listitem_hide sel_node_hide)

lemma remove_first_all_elem:
  "list_all (all_elem q) f \<Longrightarrow> list_all (all_elem q) (remove_first p f)"
  by (induction p f rule: remove_first.induct) auto

lemma node_rest_role_ok:
  assumes "list_all (all_elem role_ok) ch"
  shows "list_all (all_elem role_ok) (node_rest ch)"
proof -
  have 1: "list_all (all_elem role_ok) (hide_later_texts False ch)"
    using hv_node_rest_steps(1) assms by (rule hv_list_all_elem [rotated]) (rule role_ok_hide)
  then have 2: "list_all (all_elem role_ok)
      (remove_first (sel_tag ''title'') (hide_later_texts False ch))"
    by (rule remove_first_all_elem)
  show ?thesis
    unfolding node_rest_def
    using hv_node_rest_steps(2) 2 by (rule hv_list_all_elem [rotated]) (rule role_ok_hide)
qed

lemma node_title_role_ok: "list_all (all_elem role_ok) (node_title ch)"
  by (simp add: node_title_def role_ok_def sel_listitem_def getAttribute_def)

lemma no_groups_iff_ok:
  "\<not> exists_elem sel_node n \<Longrightarrow> all_elem role_ok n \<Longrightarrow> all_elem iff_ok n"
  by (induction n) (auto simp: list_all_iff list_ex_iff iff_ok_def role_ok_def)

lemma walk_iff_ok:
  "non_nested n \<Longrightarrow> all_elem role_ok n \<Longrightarrow> all_elem iff_ok (walk n)"
proof (induction n)
  case (Txt s)
  show ?case by simp
next
  case (Elem t a ch)
  show ?case
  proof (cases "sel_node t a")
    case True
    with Elem.prems(1) have ng: "\<not> list_ex (exists_elem sel_node) ch" by simp
    from Elem.prems(2) have r: "list_all (all_elem role_ok) ch" by simp
    let ?k = "node_title ch @ node_rest ch"
    have k1: "list_all (all_elem role_ok) ?k"
      using node_title_role_ok [of ch] node_rest_role_ok [OF r] by simp
    have k2: "\<not> list_ex (exists_elem sel_node) ?k"
      using node_title_no_groups [of ch] node_rest_no_groups [OF ng] by simp
    have "list_all (all_elem iff_ok) ?k"
      unfolding list_all_iff
    proof
      fix x assume x: "x \<in> set ?k"
      with k1 have "all_elem role_ok x" by (simp add: list_all_iff)
      moreover from x k2 have "\<not> exists_elem sel_node x" by (auto simp: list_ex_iff)
      ultimately show "all_elem iff_ok x" by (rule no_groups_iff_ok [rotated])
    qed
    moreover have "iff_ok t (setAttribute ''role'' ''listitem'' a)"
      using True by (simp add: iff_ok_def sel_listitem_set sel_node_role)
    ultimately show ?thesis unfolding walk_group [OF True ng] by simp
  next
    case False
    from Elem.prems(2) have ra: "role_ok t a" and r: "list_all (all_elem role_ok) ch" by simp_all
    from False Elem.prems(1) have nn: "list_all non_nested ch" by simp
    have "list_all (all_elem iff_ok) (map walk ch)"
      using Elem.IH nn r by (auto simp: list_all_iff)
    moreover from ra False have "iff_ok t a" by (simp add: iff_ok_def role_ok_def)
    ultimately show ?thesis using False by simp
  qed
qed

lemma select_cong:
  "all_elem (\<lambda>t a. p t a = q t a) n \<Longrightarrow> select_all p n = select_all q n"
proof (induction n)
  case (Elem t a ch)
  then have "\<And>x. x \<in> set ch \<Longrightarrow> select_all p x = select_all q x"
    by (simp add: list_all_iff)
  then have "map (select_all p) ch = map (select_all q) ch"
    by (rule map_ext [rule_format]) simp
  then have "concat (map (select_all p) ch) = concat (map (select_all q) ch)"
    by (rule arg_cong)
  moreover from Elem.prems have "p t a = q t a" by simp
  ultimately show ?case by (simp only: select_all.simps)
qed simp

lemma hidable_marker: "hidable ''marker''"
  by (simp add: hidable_def)

lemma sel_edge_hidable: "sel_edge t a \<Longrightarrow> hidable t"
  by (auto simp: sel_edge_def hidable_def)

lemma hv_pass: "hv hidable (walk n) (pass b n)"
  unfolding pass_def
  by (rule hv_trans [OF hv_update_all hv_hide_markers]) (simp_all add: sel_edge_hidable hidable_marker)

lemma pass_listitems:
  assumes "non_nested n" "all_elem role_ok n"
  shows "select_all sel_listitem (pass b n) = select_all sel_node (pass b n)"
proof -
  have "all_elem iff_ok (walk n)" using assms by (rule walk_iff_ok)
  with hv_pass have "all_elem iff_ok (pass b n)"
    by (rule hv_all_elem [rotated]) (rule iff_ok_hide)
  then show ?thesis unfolding iff_ok_def by (rule select_cong)
qed

lemma pass_edges: "all_elem edge_ok (pass b n)"
  unfolding pass_def
  using hv_hide_markers [of hidable, OF hidable_marker] edges_hidden_update
  by (rule hv_all_elem [rotated]) (rule edge_ok_hide)

lemma pass_markers: "markers_ok b (pass b n)"
  unfolding pass_def by (rule markers_hidden)

lemma node_done_list:
  "list_all2 (hv hidable) (map walk xs) ys \<Longrightarrow>
   (\<And>x. x \<in> set xs \<Longrightarrow> \<exists>t a ch. x = Elem t a ch \<and> sel_node t a \<and> \<not> list_ex (exists_elem sel_node) ch) \<Longrightarrow>
   list_all2 node_done xs ys"
proof (induction xs arbitrary: ys)
  case Nil
  then show ?case by simp
next
  case (Cons x xs)
  from Cons.prems(1) obtain y ys' where ys: "ys = y # ys'"
    and y: "hv hidable (walk x) y" and r: "list_all2 (hv hidable) (map walk xs) ys'"
    by (auto simp: list_all2_Cons1)
  from Cons.prems(2) [of x] obtain t a ch where x: "x = Elem t a ch"
    and g: "sel_node t a" "\<not> list_ex (exists_elem sel_node) ch" by auto
  have "node_done x y" using g y unfolding x by (rule node_done_walk)
  moreover have "list_all2 node_done xs ys'" using r Cons.prems(2) by (auto intro: Cons.IH)
  ultimately show ?case by (simp add: ys)
qed

lemma pass_groups:
  assumes nn: "non_nested n"
  shows "list_all2 node_done (select_all sel_node n) (select_all sel_node (pass b n))"
proof -
  have "list_all2 (hv hidable) (select_all sel_node (walk n)) (select_all sel_node (pass b n))"
    using hv_pass by (rule hv_select_node)
  then have "list_all2 (hv hidable) (map walk (select_all sel_node n)) (select_all sel_node (pass b n))"
    by (simp add: select_walk [OF nn])
  then show ?thesis
    by (rule node_done_list) (rule select_groups_flat [OF nn])
qed

lemma forest_groups:
  "list_all non_nested f \<Longrightarrow> list_all2 node_done (groups_of f) (groups_of (map (pass b) f))"
proof (induction f)
  case Nil
  show ?case by (simp add: groups_of_def)
next
  case (Cons c f)
  then have "list_all2 node_done (groups_of f) (groups_of (map (pass b) f))"
    and "list_all2 node_done (select_all sel_node c) (select_all sel_node (pass b c))"
    by (simp_all add: pass_groups)
  then show ?case by (simp add: groups_of_def list_all2_appendI)
qed

lemma forest_listitems:
  "list_all non_nested f \<Longrightarrow> list_all (all_elem role_ok) f \<Longrightarrow>
   concat (map (select_all sel_listitem) (map (pass b) f)) = groups_of (map (pass b) f)"
  by (induction f) (simp_all add: groups_of_def pass_listitems)

lemma applyFlowchartSemantics_pass:
  assumes "list_ex (exists_elem sel_flowchart_id) ch" "list_ex (exists_elem sel_node) ch"
  shows "applyFlowchartSemantics (Elem t a ch) = Elem t a (map (pass (t = ''defs'')) ch)"
  using assms by (simp add: pass_def comp_def)

text \<open>
  C9, as the code has it.  Take a document with an element whose id starts with
  \<open>flowchart-\<close>, with at least one node group, with no node group inside a node group,
  and where only node groups carry the list-item role.  After \<open>applyFlowchartSemantics\<close>
  the node groups are those of the document, in order, and each of them is \<open>node_done\<close>:
  it carries the list-item role; when the trimmed text of its \<open>text\<close> elements is not
  empty its first child is a new title with exactly this text; its title children are
  this title and the title children it keeps once its first title element in document
  order is removed; every shape inside it is hidden.  The elements with the list-item
  role are as many as the node groups.  Every edge group is hidden, and every marker
  below a \<open>defs\<close> element is hidden.
\<close>

theorem flowchart_semantics_groups:
  assumes fc: "list_ex (exists_elem sel_flowchart_id) ch"
    and some: "list_ex (exists_elem sel_node) ch"
    and flat: "list_all non_nested ch"
    and roles: "list_all (all_elem role_ok) ch"
  shows "list_all2 node_done (groups_of ch)
           (groups_of (childNodes (applyFlowchartSemantics (Elem t a ch))))
       \<and> length (concat (map (select_all sel_listitem)
                   (childNodes (applyFlowchartSemantics (Elem t a ch)))))
           = length (groups_of ch)
       \<and> list_all (all_elem edge_ok) (childNodes (applyFlowchartSemantics (Elem t a ch)))
       \<and> list_all (markers_ok (t = ''defs''))
           (childNodes (applyFlowchartSemantics (Elem t a ch)))"
proof -
  let ?b = "t = ''defs''"
  have out: "childNodes (applyFlowchartSemantics (Elem t a ch)) = map (pass ?b) ch"
    by (simp only: applyFlowchartSemantics_pass [OF fc some] childNodes.simps)
  have groups: "list_all2 node_done (groups_of ch) (groups_of (map (pass ?b) ch))"
    using flat by (rule forest_groups)
  have "length (concat (map (select_all sel_listitem) (map (pass ?b) ch)))
          = length (groups_of (map (pass ?b) ch))"
    by (simp only: forest_listitems [OF flat roles])
  also have "\<dots> = length (groups_of ch)"
    using groups by (simp add: list_all2_lengthD)
  finally have count: "length (concat (map (select_all sel_listitem) (map (pass ?b) ch)))
          = length (groups_of ch)" .
  have edges: "list_all (all_elem edge_ok) (map (pass ?b) ch)"
    by (simp add: list_all_iff pass_edges)
  have markers: "list_all (markers_ok ?b) (map (pass ?b) ch)"
    by (simp add: list_all_iff pass_markers)
  from groups count edges markers show ?thesis by (simp only: out) 
qed

text \<open>
  C9, witness: \<open>rendered_flowchart\<close> meets the four conditions and has two node groups.
  The function yields \<open>rendered_flowchart_done\<close>: the old title of the first group is
  replaced by the title \<open>Start\<close>, the second group gets the title \<open>Go on\<close> and its
  second text is hidden, both groups are list items, and the shapes, the two edge groups
  and the marker are hidden.
\<close>

theorem flowchart_semantics_groups_witness:
  "list_ex (exists_elem sel_flowchart_id) rendered_flowchart
   \<and> list_ex (exists_elem sel_node) rendered_flowchart
   \<and> list_all non_nested rendered_flowchart
   \<and> list_all (all_elem role_ok) rendered_flowchart
   \<and> length (groups_of rendered_flowchart) = 2
   \<and> applyFlowchartSemantics (Elem ''svg'' [] rendered_flowchart)
       = Elem ''svg'' [] rendered_flowchart_done
   \<and> list_all2 node_done (groups_of rendered_flowchart) (groups_of rendered_flowchart_done)
   \<and> length (concat (map (select_all sel_listitem) rendered_flowchart_done)) = 2
   \<and> list_all (all_elem edge_ok) rendered_flowchart_done
   \<and> list_all (markers_ok False) rendered_flowchart_done"
proof -
  have fc: "list_ex (exists_elem sel_flowchart_id) rendered_flowchart" by code_simp
  have some: "list_ex (exists_elem sel_node) rendered_flowchart" by code_simp
  have flat: "list_all non_nested rendered_flowchart" by code_simp
  have roles: "list_all (all_elem role_ok) rendered_flowchart" by code_simp
  have n: "length (groups_of rendered_flowchart) = 2" by code_simp
  have out: "applyFlowchartSemantics (Elem ''svg'' [] rendered_flowchart)
       = Elem ''svg'' [] rendered_flowchart_done" by code_simp
  have svg: "(''svg'' = ''defs'') = False" by simp
  from flowchart_semantics_groups [OF fc some flat roles, of "''svg''" "[]"]
  have "list_all2 node_done (groups_of rendered_flowchart) (groups_of rendered_flowchart_done)
   \<and> length (concat (map (select_all sel_listitem) rendered_flowchart_done)) = 2
   \<and> list_all (all_elem edge_ok) rendered_flowchart_done
   \<and> list_all (markers_ok False) rendered_flowchart_done"
    by (simp only: out n svg childNodes.simps)
  with fc some flat roles n out show ?thesis by blast
qed

text \<open>
  C9, counterexample to "each group with text has exactly one title child" and to "all
  edge groups and all marker definitions are hidden".  In \<open>two_titles\<close> the node group has
  two title children and the text \<open>Start\<close>: the function removes the first title only, so
  the group ends with two title children.  \<open>no_nodes\<close> has an element with a flowchart id
  and no node group: the function returns before it reaches the edges and the markers,
  the document is unchanged, and its edge group and its marker are not hidden.
\<close>

theorem flowchart_titles_and_early_return:
  "applyFlowchartSemantics (Elem ''svg'' [] two_titles)
     = Elem ''svg'' []
         [Elem ''g'' [(''class'', ''node''), (''id'', ''flowchart-A-0''), (''role'', ''listitem'')]
            [Elem ''title'' [] [Txt ''Start''],
             Elem ''title'' [] [Txt ''older''],
             Elem ''text'' [] [Txt ''Start'']]]
   \<and> list_ex (exists_elem sel_flowchart_id) no_nodes
   \<and> applyFlowchartSemantics (Elem ''svg'' [] no_nodes) = Elem ''svg'' [] no_nodes
   \<and> \<not> list_all (all_elem edge_ok) no_nodes
   \<and> \<not> list_all (markers_ok False) no_nodes"
  by code_simp


end
